theory Spec2Isabelle
  imports Complex_Main
begin

section \<open>Cells, constants and number rendering\<close>

text \<open>
  \<^verbatim>\<open>type Cell = { x: number; y: number }\<close>. Every coordinate the game computes is an
  integer far inside the range where JavaScript numbers are exact, so a coordinate is an
  \<open>int\<close>.
\<close>

record Cell =
  x :: int
  y :: int

definition GRID_SIZE :: int where
  "GRID_SIZE = 25"

definition INITIAL_SPEED :: int where
  "INITIAL_SPEED = 150"

definition SPEED_FLOOR :: int where
  "SPEED_FLOOR = 60"

definition SPEED_STEP :: int where
  "SPEED_STEP = 4"

definition cellsEqual :: "Cell \<Rightarrow> Cell \<Rightarrow> bool" where
  "cellsEqual a b \<longleftrightarrow> x a = x b \<and> y a = y b"

text \<open>
  The template literal \<^verbatim>\<open>`${x}:${y}`\<close> renders each integer in decimal (a minus sign, then
  the digits without leading zeros) around a colon.
\<close>

definition digitChar :: "nat \<Rightarrow> char" where
  "digitChar d = char_of (48 + d)"

fun digitsOf :: "nat \<Rightarrow> string" where
  "digitsOf n = (if n < 10 then [digitChar n] else digitsOf (n div 10) @ [digitChar (n mod 10)])"

declare digitsOf.simps [simp del]

definition numberToString :: "int \<Rightarrow> string" where
  "numberToString i = (if i < 0 then CHR ''-'' # digitsOf (nat (- i)) else digitsOf (nat i))"

definition cellKey :: "Cell \<Rightarrow> string" where
  "cellKey c = numberToString (x c) @ CHR '':'' # numberToString (y c)"

text \<open>Reading rendered digits back, to tell the keys of different cells apart.\<close>

definition digitValue :: "char \<Rightarrow> nat" where
  "digitValue c = of_char c - 48"

definition isDigitChar :: "char \<Rightarrow> bool" where
  "isDigitChar c \<longleftrightarrow> 48 \<le> (of_char c :: nat) \<and> (of_char c :: nat) \<le> 57"

definition decimalValue :: "string \<Rightarrow> nat" where
  "decimalValue s = foldl (\<lambda>a c. 10 * a + digitValue c) 0 s"

section \<open>The initial snake and the food spawner\<close>

definition createInitialSnake :: "Cell list" where
  "createInitialSnake =
     (let center = GRID_SIZE div 2
      in [\<lparr>x = center + 1, y = center\<rparr>, \<lparr>x = center, y = center\<rparr>, \<lparr>x = center - 1, y = center\<rparr>])"

text \<open>
  A value of \<^verbatim>\<open>Math.random()\<close>: a number \<open>u\<close> with \<open>0 \<le> u < 1\<close>.
\<close>

typedef rnd = "{u :: real. 0 \<le> u \<and> u < 1}"
  by (rule exI [of _ 0]) simp

text \<open>
  The two nested \<^verbatim>\<open>for\<close> loops of \<^verbatim>\<open>getRandomFood\<close>: \<open>xi\<close> and \<open>yi\<close> are the loop
  counters \<^verbatim>\<open>x\<close> and \<^verbatim>\<open>y\<close>, \<open>spaces\<close> is the array being pushed to.
\<close>

function scanRow :: "string set \<Rightarrow> int \<Rightarrow> int \<Rightarrow> Cell list \<Rightarrow> Cell list" where
  "scanRow occupiedKey yi xi spaces =
     (if xi < GRID_SIZE
      then scanRow occupiedKey yi (xi + 1)
             (if cellKey \<lparr>x = xi, y = yi\<rparr> \<notin> occupiedKey then spaces @ [\<lparr>x = xi, y = yi\<rparr>] else spaces)
      else spaces)"
  by pat_completeness auto
termination
  by (relation "measure (\<lambda>(occupiedKey, yi, xi, spaces). nat (GRID_SIZE - xi))") auto

declare scanRow.simps [simp del]

function scanGrid :: "string set \<Rightarrow> int \<Rightarrow> Cell list \<Rightarrow> Cell list" where
  "scanGrid occupiedKey yi spaces =
     (if yi < GRID_SIZE
      then scanGrid occupiedKey (yi + 1) (scanRow occupiedKey yi 0 spaces)
      else spaces)"
  by pat_completeness auto
termination
  by (relation "measure (\<lambda>(occupiedKey, yi, spaces). nat (GRID_SIZE - yi))") auto

declare scanGrid.simps [simp del]

definition freeSpaces :: "Cell list \<Rightarrow> Cell list" where
  "freeSpaces occupied = scanGrid (cellKey ` set occupied) 0 []"

text \<open>
  \<^verbatim>\<open>spaces[Math.floor(Math.random() * spaces.length)]\<close>, in exact arithmetic. (The
  product is rounded in floating point, which can move the index by one but never to
  \<^verbatim>\<open>spaces.length\<close>; no property below depends on which free cell is drawn.)
\<close>

definition getRandomFood :: "Cell list \<Rightarrow> rnd \<Rightarrow> Cell" where
  "getRandomFood occupied u =
     (let spaces = freeSpaces occupied
      in if length spaces = 0 then \<lparr>x = 0, y = 0\<rparr>
         else spaces ! nat \<lfloor>Rep_rnd u * real (length spaces)\<rfloor>)"

text \<open>
  The specification's \<open>freeCells\<close>: all grid cells not in \<open>occupied\<close>, in row-major order
  (\<open>y\<close> outer, \<open>x\<close> inner).
\<close>

definition inBounds :: "Cell \<Rightarrow> bool" where
  "inBounds c \<longleftrightarrow> 0 \<le> x c \<and> x c < GRID_SIZE \<and> 0 \<le> y c \<and> y c < GRID_SIZE"

definition gridRow :: "int \<Rightarrow> Cell list" where
  "gridRow yi = map (\<lambda>xi. \<lparr>x = xi, y = yi\<rparr>) [0 .. GRID_SIZE - 1]"

definition gridCells :: "Cell list" where
  "gridCells = concat (map gridRow [0 .. GRID_SIZE - 1])"

definition freeCells :: "Cell set \<Rightarrow> Cell list" where
  "freeCells occupied = filter (\<lambda>c. c \<notin> occupied) gridCells"

definition rowMajorBefore :: "Cell \<Rightarrow> Cell \<Rightarrow> bool" where
  "rowMajorBefore a b \<longleftrightarrow> y a < y b \<or> (y a = y b \<and> x a < x b)"

section \<open>JavaScript numbers and \<^verbatim>\<open>Number.parseInt(stored, 10)\<close>\<close>

text \<open>
  The high score is a JavaScript number. The values it can take are the integers a double
  holds and the two infinities (\<^verbatim>\<open>NaN\<close> is kept out by the guard of the load, and \<open>-0\<close>,
  which compares and prints as \<open>0\<close>, is \<open>Finite 0\<close>). They are ordered as the doubles are.
\<close>

datatype jsnumber = NegInfinity | Finite int | PosInfinity

instantiation jsnumber :: linorder
begin

fun less_eq_jsnumber :: "jsnumber \<Rightarrow> jsnumber \<Rightarrow> bool" where
  "less_eq_jsnumber NegInfinity b = True"
| "less_eq_jsnumber (Finite a) NegInfinity = False"
| "less_eq_jsnumber (Finite a) (Finite b) = (a \<le> b)"
| "less_eq_jsnumber (Finite a) PosInfinity = True"
| "less_eq_jsnumber PosInfinity b = (b = PosInfinity)"

definition less_jsnumber :: "jsnumber \<Rightarrow> jsnumber \<Rightarrow> bool" where
  "less_jsnumber a b \<longleftrightarrow> a \<le> b \<and> \<not> b \<le> a"

instance
proof
  fix a b c :: jsnumber
  show "a < b \<longleftrightarrow> a \<le> b \<and> \<not> b \<le> a" by (rule less_jsnumber_def)
  show "a \<le> a" by (cases a) simp_all
  show "a \<le> b \<Longrightarrow> b \<le> c \<Longrightarrow> a \<le> c" by (cases a; cases b; cases c) simp_all
  show "a \<le> b \<Longrightarrow> b \<le> a \<Longrightarrow> a = b" by (cases a; cases b) simp_all
  show "a \<le> b \<or> b \<le> a" by (cases a; cases b) auto
qed

end

definition negateNumber :: "jsnumber \<Rightarrow> jsnumber" where
  "negateNumber v =
     (case v of NegInfinity \<Rightarrow> PosInfinity | Finite n \<Rightarrow> Finite (- n) | PosInfinity \<Rightarrow> NegInfinity)"

text \<open>
  The Number value of a non-negative integer: the nearest double, ties to the even
  mantissa of 53 bits, \<^verbatim>\<open>Infinity\<close> when that reaches \<open>2^1024\<close>. Below \<open>2^53\<close> it is
  the integer itself. The whole digit run is read, as the engines do (ECMAScript would
  let an engine read the digits after the 20th as zeros).
\<close>

fun bitLength :: "nat \<Rightarrow> nat" where
  "bitLength n = (if n = 0 then 0 else Suc (bitLength (n div 2)))"

declare bitLength.simps [simp del]

definition toNumber :: "nat \<Rightarrow> jsnumber" where
  "toNumber n =
     (if n < 2 ^ 53 then Finite (int n)
      else
        let e = bitLength n - 53;
            q = n div 2 ^ e;
            r = n mod 2 ^ e;
            m = (if 2 * r > 2 ^ e \<or> (2 * r = 2 ^ e \<and> odd q) then q + 1 else q)
        in if m * 2 ^ e \<ge> 2 ^ 1024 then PosInfinity else Finite (int (m * 2 ^ e)))"

text \<open>
  A JavaScript string is a list of UTF-16 code units; \<open>utf16\<close> gives the units of a text
  of characters below \<open>256\<close>. \<^verbatim>\<open>parseInt\<close> with radix 10 (ECMAScript): skip the leading
  white space (TAB, LF, VT, FF, CR, SP, NBSP, U+1680, U+2000 to U+200A, U+2028, U+2029,
  U+202F, U+205F, U+3000, U+FEFF), take one optional sign, then the longest run of decimal
  digits; no digit gives \<^verbatim>\<open>NaN\<close> (here \<open>None\<close>), otherwise the Number value of the signed
  integer \<open>mathInt\<close> the run denotes.
\<close>

type_synonym jsstring = "nat list"

definition utf16 :: "string \<Rightarrow> jsstring" where
  "utf16 str = map of_char str"

definition isStrWhiteSpaceChar :: "nat \<Rightarrow> bool" where
  "isStrWhiteSpaceChar c \<longleftrightarrow>
     c \<in> {9, 10, 11, 12, 13, 32, 160, 5760, 8232, 8233, 8239, 8287, 12288, 65279}
     \<or> (8192 \<le> c \<and> c \<le> 8202)"

definition isDecimalDigit :: "nat \<Rightarrow> bool" where
  "isDecimalDigit c \<longleftrightarrow> 48 \<le> c \<and> c \<le> 57"

definition mathInt :: "jsstring \<Rightarrow> nat" where
  "mathInt Z = foldl (\<lambda>a c. 10 * a + (c - 48)) 0 Z"

definition afterWhiteSpace :: "jsstring \<Rightarrow> jsstring" where
  "afterWhiteSpace input = dropWhile isStrWhiteSpaceChar input"

definition afterSign :: "jsstring \<Rightarrow> jsstring" where
  "afterSign S = (case S of [] \<Rightarrow> [] | c # rest \<Rightarrow> if c = 43 \<or> c = 45 then rest else S)"

definition signOf :: "jsstring \<Rightarrow> int" where
  "signOf S = (case S of [] \<Rightarrow> 1 | c # rest \<Rightarrow> if c = 45 then - 1 else 1)"

definition signedNumber :: "int \<Rightarrow> nat \<Rightarrow> jsnumber" where
  "signedNumber sign n = (if sign < 0 then negateNumber (toNumber n) else toNumber n)"

definition parseInt10 :: "jsstring \<Rightarrow> jsnumber option" where
  "parseInt10 input =
     (let S = afterWhiteSpace input;
          Z = takeWhile isDecimalDigit (afterSign S)
      in if Z = [] then None else Some (signedNumber (signOf S) (mathInt Z)))"

section \<open>The component state\<close>

text \<open>
  The \<^verbatim>\<open>useState\<close> values and the three \<^verbatim>\<open>useRef\<close> cells of \<^verbatim>\<open>SnakeGame\<close>. \<open>loopRef\<close>
  holds \<open>Some d\<close> while an interval with delay \<open>d\<close> is armed and \<open>None\<close> after
  \<^verbatim>\<open>clearInterval\<close>. State updaters run once per update, as React runs them in
  production; a functional update (\<^verbatim>\<open>setScore(c => ...)\<close>) reads the current value of
  the record. The score is an integer; the high score, which the load can set to any
  Number \<^verbatim>\<open>parseInt\<close> returns, is a \<open>jsnumber\<close>.
\<close>

record game =
  snake :: "Cell list"
  direction :: Cell
  food :: Cell
  isRunning :: bool
  isGameOver :: bool
  score :: int
  highScore :: jsnumber
  speed :: int
  nextDirectionRef :: "Cell option"
  directionRef :: Cell
  loopRef :: "int option"

text \<open>Reading \<^verbatim>\<open>head.x\<close> of an empty snake (\<^verbatim>\<open>previousSnake[0]\<close> undefined) throws.\<close>

datatype error = TypeError

text \<open>
  The lookup \<^verbatim>\<open>KEY_TO_DIRECTION[key]\<close> for the key values a keyboard event carries (named
  keys and single characters): the eight entries of the table, \<open>None\<close> for
  \<^verbatim>\<open>undefined\<close>.
\<close>

definition KEY_TO_DIRECTION :: "string \<Rightarrow> Cell option" where
  "KEY_TO_DIRECTION = map_of
     [(''ArrowUp'', \<lparr>x = 0, y = - 1\<rparr>),
      (''ArrowDown'', \<lparr>x = 0, y = 1\<rparr>),
      (''ArrowLeft'', \<lparr>x = - 1, y = 0\<rparr>),
      (''ArrowRight'', \<lparr>x = 1, y = 0\<rparr>),
      (''w'', \<lparr>x = 0, y = - 1\<rparr>),
      (''s'', \<lparr>x = 0, y = 1\<rparr>),
      (''a'', \<lparr>x = - 1, y = 0\<rparr>),
      (''d'', \<lparr>x = 1, y = 0\<rparr>)]"

definition initialState :: "rnd \<Rightarrow> game" where
  "initialState u =
     \<lparr>snake = createInitialSnake,
      direction = \<lparr>x = 1, y = 0\<rparr>,
      food = getRandomFood createInitialSnake u,
      isRunning = False,
      isGameOver = False,
      score = 0,
      highScore = Finite 0,
      speed = INITIAL_SPEED,
      nextDirectionRef = None,
      directionRef = \<lparr>x = 1, y = 0\<rparr>,
      loopRef = None\<rparr>"

subsection \<open>Effects\<close>

definition directionEffect :: "game \<Rightarrow> game" where
  "directionEffect s = s\<lparr>directionRef := direction s\<rparr>"

text \<open>
  The mount effect that reads \<^verbatim>\<open>localStorage.getItem("snake-highscore")\<close>: \<open>None\<close> is
  \<^verbatim>\<open>null\<close>; the empty string is falsy.
\<close>

definition loadHighScore :: "jsstring option \<Rightarrow> game \<Rightarrow> game" where
  "loadHighScore stored s =
     (case stored of
        None \<Rightarrow> s
      | Some str \<Rightarrow>
          if str = [] then s
          else (case parseInt10 str of None \<Rightarrow> s | Some parsed \<Rightarrow> s\<lparr>highScore := parsed\<rparr>))"

definition loopEffect :: "game \<Rightarrow> game" where
  "loopEffect s =
     (if \<not> isRunning s \<or> isGameOver s then s\<lparr>loopRef := None\<rparr>
      else s\<lparr>loopRef := Some (speed s)\<rparr>)"

definition mount :: "jsstring option \<Rightarrow> rnd \<Rightarrow> game" where
  "mount stored u = loopEffect (loadHighScore stored (directionEffect (initialState u)))"

subsection \<open>Callbacks\<close>

definition resetGame :: "bool \<Rightarrow> rnd \<Rightarrow> game \<Rightarrow> game" where
  "resetGame autoStart u s =
     (let freshSnake = createInitialSnake;
          newFood = getRandomFood freshSnake u
      in s\<lparr>snake := freshSnake,
           direction := \<lparr>x = 1, y = 0\<rparr>,
           nextDirectionRef := None,
           food := newFood,
           score := 0,
           speed := INITIAL_SPEED,
           isGameOver := False,
           isRunning := autoStart\<rparr>)"

definition handleGameOver :: "game \<Rightarrow> game" where
  "handleGameOver s = s\<lparr>isRunning := False, isGameOver := True\<rparr>"

definition nextHeadOf :: "Cell \<Rightarrow> Cell \<Rightarrow> Cell" where
  "nextHeadOf head currentDirection =
     \<lparr>x = x head + x currentDirection, y = y head + y currentDirection\<rparr>"

definition hitsWall :: "Cell \<Rightarrow> bool" where
  "hitsWall nextHead \<longleftrightarrow>
     x nextHead < 0 \<or> y nextHead < 0 \<or> x nextHead \<ge> GRID_SIZE \<or> y nextHead \<ge> GRID_SIZE"

definition hitsSelf :: "Cell list \<Rightarrow> Cell \<Rightarrow> bool" where
  "hitsSelf previousSnake nextHead \<longleftrightarrow>
     list_ex (\<lambda>segment. cellsEqual segment nextHead) previousSnake"

definition step :: "Cell \<Rightarrow> rnd \<Rightarrow> game \<Rightarrow> error + game" where
  "step currentDirection u s =
     (case snake s of
        [] \<Rightarrow> Inl TypeError
      | head # _ \<Rightarrow>
          let previousSnake = snake s;
              nextHead = nextHeadOf head currentDirection
          in if hitsWall nextHead \<or> hitsSelf previousSnake nextHead
             then Inr (handleGameOver s)
             else
               let nextSnake = nextHead # previousSnake;
                   ateFood = cellsEqual nextHead (food s)
               in if ateFood
                  then
                    let newFood = getRandomFood nextSnake u;
                        updatedScore = score s + 10
                    in Inr (s\<lparr>food := newFood,
                              score := updatedScore,
                              highScore :=
                                (if Finite updatedScore > highScore s then Finite updatedScore
                                 else highScore s),
                              speed := max SPEED_FLOOR (speed s - SPEED_STEP),
                              snake := nextSnake\<rparr>)
                  else Inr (s\<lparr>snake := butlast nextSnake\<rparr>))"

text \<open>The interval callback: consume the pending direction, then \<open>step\<close>.\<close>

definition activeDirection :: "game \<Rightarrow> Cell" where
  "activeDirection s =
     (case nextDirectionRef s of None \<Rightarrow> directionRef s | Some nextDirection \<Rightarrow> nextDirection)"

definition consumePending :: "game \<Rightarrow> game" where
  "consumePending s =
     (case nextDirectionRef s of
        None \<Rightarrow> s
      | Some nextDirection \<Rightarrow>
          s\<lparr>direction := nextDirection, directionRef := nextDirection, nextDirectionRef := None\<rparr>)"

definition intervalCallback :: "rnd \<Rightarrow> game \<Rightarrow> error + game" where
  "intervalCallback u s = step (activeDirection s) u (consumePending s)"

text \<open>
  \<^verbatim>\<open>event.key.length === 1 ? event.key.toLowerCase() : event.key\<close>. Only the letters
  \<open>A\<close> to \<open>Z\<close> are mapped: no other character lower-cases to a key of the table.
\<close>

definition toLowerCase :: "string \<Rightarrow> string" where
  "toLowerCase k =
     map (\<lambda>c. if 65 \<le> (of_char c :: nat) \<and> (of_char c :: nat) \<le> 90
               then char_of (of_char c + 32 :: nat) else c) k"

definition normalizeKey :: "string \<Rightarrow> string" where
  "normalizeKey k = (if length k = 1 then toLowerCase k else k)"

definition opposite :: "Cell \<Rightarrow> Cell \<Rightarrow> bool" where
  "opposite current desired \<longleftrightarrow> x current + x desired = 0 \<and> y current + y desired = 0"

definition handleKeyDown :: "string \<Rightarrow> rnd \<Rightarrow> game \<Rightarrow> game" where
  "handleKeyDown k u s =
     (let key = normalizeKey k
      in if key = '' ''
         then (if isGameOver s then resetGame True u s else s\<lparr>isRunning := \<not> isRunning s\<rparr>)
         else
           (case KEY_TO_DIRECTION key of
              None \<Rightarrow> s
            | Some desiredDirection \<Rightarrow>
                if opposite (directionRef s) desiredDirection then s
                else
                  let s1 = s\<lparr>nextDirectionRef := Some desiredDirection\<rparr>
                  in if \<not> isRunning s \<and> \<not> isGameOver s then s1\<lparr>isRunning := True\<rparr> else s1))"

text \<open>
  The four on-screen buttons share one handler, each with its own \<open>desired\<close>, the table
  entry \<^verbatim>\<open>KEY_TO_DIRECTION.ArrowUp\<close>, \<^verbatim>\<open>.ArrowLeft\<close>, \<^verbatim>\<open>.ArrowRight\<close> or \<^verbatim>\<open>.ArrowDown\<close>.
\<close>

datatype pad = PadUp | PadLeft | PadRight | PadDown

definition padKey :: "pad \<Rightarrow> string" where
  "padKey b =
     (case b of PadUp \<Rightarrow> ''ArrowUp'' | PadLeft \<Rightarrow> ''ArrowLeft''
      | PadRight \<Rightarrow> ''ArrowRight'' | PadDown \<Rightarrow> ''ArrowDown'')"

definition padDirection :: "pad \<Rightarrow> Cell" where
  "padDirection b =
     (case b of PadUp \<Rightarrow> \<lparr>x = 0, y = - 1\<rparr> | PadLeft \<Rightarrow> \<lparr>x = - 1, y = 0\<rparr>
      | PadRight \<Rightarrow> \<lparr>x = 1, y = 0\<rparr> | PadDown \<Rightarrow> \<lparr>x = 0, y = 1\<rparr>)"

definition onClickPad :: "Cell \<Rightarrow> game \<Rightarrow> game" where
  "onClickPad desired s =
     (if x (directionRef s) + x desired \<noteq> 0 \<or> y (directionRef s) + y desired \<noteq> 0
      then
        let s1 = s\<lparr>nextDirectionRef := Some desired\<rparr>
        in if \<not> isRunning s then s1\<lparr>isRunning := True\<rparr> else s1
      else s)"

definition handleStart :: "rnd \<Rightarrow> game \<Rightarrow> game" where
  "handleStart u s = (if isGameOver s then resetGame True u s else s\<lparr>isRunning := True\<rparr>)"

definition handlePause :: "game \<Rightarrow> game" where
  "handlePause s = s\<lparr>isRunning := False\<rparr>"

definition handleResume :: "game \<Rightarrow> game" where
  "handleResume s = (if \<not> isGameOver s then s\<lparr>isRunning := True\<rparr> else s)"

definition handleRestart :: "rnd \<Rightarrow> game \<Rightarrow> game" where
  "handleRestart u s = resetGame True u s"

subsection \<open>Events\<close>

text \<open>
  One event is handled to completion, its re-render and effects included, before the
  next. \<open>Elapse\<close> is one period of the interval timer: the callback runs if a timer is
  armed and nothing happens otherwise. A button can be clicked while it is rendered and
  enabled.
\<close>

datatype event =
  Elapse | KeyDown string | ClickPad pad | ClickStart | ClickPause | ClickResume | ClickRestart

definition showStart :: "game \<Rightarrow> bool" where
  "showStart s \<longleftrightarrow> \<not> isRunning s \<and> \<not> isGameOver s \<and> score s = 0"

definition showResume :: "game \<Rightarrow> bool" where
  "showResume s \<longleftrightarrow> \<not> isRunning s \<and> \<not> isGameOver s \<and> score s > 0"

definition restartDisabled :: "game \<Rightarrow> bool" where
  "restartDisabled s \<longleftrightarrow> score s = 0 \<and> \<not> isRunning s \<and> \<not> isGameOver s"

definition available :: "event \<Rightarrow> game \<Rightarrow> bool" where
  "available e s =
     (case e of
        ClickStart \<Rightarrow> showStart s
      | ClickPause \<Rightarrow> isRunning s
      | ClickResume \<Rightarrow> showResume s
      | ClickRestart \<Rightarrow> \<not> restartDisabled s
      | _ \<Rightarrow> True)"

definition handler :: "event \<Rightarrow> rnd \<Rightarrow> game \<Rightarrow> game" where
  "handler e u s =
     (case e of
        Elapse \<Rightarrow> s
      | KeyDown k \<Rightarrow> handleKeyDown k u s
      | ClickPad b \<Rightarrow> onClickPad (padDirection b) s
      | ClickStart \<Rightarrow> handleStart u s
      | ClickPause \<Rightarrow> handlePause s
      | ClickResume \<Rightarrow> handleResume s
      | ClickRestart \<Rightarrow> handleRestart u s)"

text \<open>The handler invocations that call \<open>resetGame\<close>.\<close>

definition callsReset :: "event \<Rightarrow> game \<Rightarrow> bool" where
  "callsReset e s =
     (case e of
        KeyDown k \<Rightarrow> normalizeKey k = '' '' \<and> isGameOver s
      | ClickStart \<Rightarrow> isGameOver s
      | ClickRestart \<Rightarrow> True
      | _ \<Rightarrow> False)"

text \<open>
  After a handler the component re-renders and its effects run. \<open>resetGame\<close> stores a
  fresh direction object, so the effect on \<open>[direction]\<close> copies it into \<open>directionRef\<close>;
  the interval callback writes the state and the ref together; no other handler sets
  the direction. The timer effect re-arms the interval from the new state.
\<close>

definition fire :: "event \<Rightarrow> rnd \<Rightarrow> game \<Rightarrow> error + game" where
  "fire e u s =
     (case e of
        Elapse \<Rightarrow>
          (if loopRef s = None then Inr s
           else (case intervalCallback u s of
                   Inl err \<Rightarrow> Inl err
                 | Inr s' \<Rightarrow> Inr (loopEffect s')))
      | _ \<Rightarrow>
          if \<not> available e s then Inr s
          else if callsReset e s then Inr (loopEffect (directionEffect (handler e u s)))
          else Inr (loopEffect (handler e u s)))"

fun elapse :: "rnd list \<Rightarrow> game \<Rightarrow> error + game" where
  "elapse [] s = Inr s"
| "elapse (u # us) s = (case fire Elapse u s of Inl err \<Rightarrow> Inl err | Inr s' \<Rightarrow> elapse us s')"

inductive reachable :: "jsstring option \<Rightarrow> game \<Rightarrow> bool" for stored :: "jsstring option" where
  mounted: "reachable stored (mount stored u)"
| fired: "reachable stored s \<Longrightarrow> fire e u s = Inr s' \<Longrightarrow> reachable stored s'"

section \<open>Outcomes named by the specification\<close>

text \<open>
  What a tick that eats must do to the state \<open>s\<close>, with \<open>nextHead\<close> the candidate head:
  the result is \<open>s'\<close>.
\<close>

definition foodConsumed :: "game \<Rightarrow> Cell \<Rightarrow> game \<Rightarrow> bool" where
  "foodConsumed s nextHead s' \<longleftrightarrow>
     score s' = score s + 10
     \<and> snake s' = nextHead # snake s
     \<and> length (snake s') = length (snake s) + 1
     \<and> speed s' = max 60 (speed s - 4)
     \<and> highScore s' = max (highScore s) (Finite (score s'))
     \<and> (if \<exists>c. inBounds c \<and> c \<notin> set (snake s')
         then inBounds (food s') \<and> food s' \<notin> set (snake s')
         else food s' = \<lparr>x = 0, y = 0\<rparr>)
     \<and> isRunning s' = isRunning s \<and> isGameOver s' = isGameOver s"

text \<open>The configuration a restart must produce: the initial one, running, for high score \<open>hs\<close>.\<close>

definition freshRun :: "rnd \<Rightarrow> jsnumber \<Rightarrow> game" where
  "freshRun u hs =
     \<lparr>snake = [\<lparr>x = 13, y = 12\<rparr>, \<lparr>x = 12, y = 12\<rparr>, \<lparr>x = 11, y = 12\<rparr>],
      direction = \<lparr>x = 1, y = 0\<rparr>,
      food = getRandomFood [\<lparr>x = 13, y = 12\<rparr>, \<lparr>x = 12, y = 12\<rparr>, \<lparr>x = 11, y = 12\<rparr>] u,
      isRunning = True,
      isGameOver = False,
      score = 0,
      highScore = hs,
      speed = 150,
      nextDirectionRef = None,
      directionRef = \<lparr>x = 1, y = 0\<rparr>,
      loopRef = Some 150\<rparr>"

text \<open>A well-formed base-10 non-negative integer string: one or more decimal digits.\<close>

definition wellFormedDecimal :: "jsstring \<Rightarrow> bool" where
  "wellFormedDecimal str \<longleftrightarrow> str \<noteq> [] \<and> list_all isDecimalDigit str"

text \<open>A string that starts, after white space and one optional sign, with a decimal digit.\<close>

definition startsNumeric :: "jsstring \<Rightarrow> bool" where
  "startsNumeric str =
     (case afterSign (afterWhiteSpace str) of [] \<Rightarrow> False | c # _ \<Rightarrow> isDecimalDigit c)"

text \<open>A stored value that \<^verbatim>\<open>parseInt\<close> does not read as a negative number.\<close>

text \<open>The sign and the digit run \<^verbatim>\<open>parseInt\<close> reads at the start of a string.\<close>

definition leadingSign :: "jsstring \<Rightarrow> int" where
  "leadingSign str = signOf (afterWhiteSpace str)"

definition leadingDigits :: "jsstring \<Rightarrow> jsstring" where
  "leadingDigits str = takeWhile isDecimalDigit (afterSign (afterWhiteSpace str))"

definition storedNonNegative :: "jsstring option \<Rightarrow> bool" where
  "storedNonNegative stored =
     (case stored of
        None \<Rightarrow> True
      | Some str \<Rightarrow> (case parseInt10 str of None \<Rightarrow> True | Some parsed \<Rightarrow> Finite 0 \<le> parsed))"

section \<open>The invariant of the reachable states\<close>

definition isDirection :: "Cell \<Rightarrow> bool" where
  "isDirection d \<longleftrightarrow>
     d = \<lparr>x = 1, y = 0\<rparr> \<or> d = \<lparr>x = - 1, y = 0\<rparr> \<or> d = \<lparr>x = 0, y = 1\<rparr> \<or> d = \<lparr>x = 0, y = - 1\<rparr>"

text \<open>
  The body is never empty; the ref and the state agree on the direction, a unit vector;
  a pending direction is a unit vector that does not reverse the direction in effect.
\<close>

fun pendingOk :: "Cell \<Rightarrow> Cell option \<Rightarrow> bool" where
  "pendingOk current None = True"
| "pendingOk current (Some d) = (isDirection d \<and> \<not> opposite current d)"

definition coreInvariant :: "game \<Rightarrow> bool" where
  "coreInvariant s \<longleftrightarrow>
     snake s \<noteq> []
     \<and> directionRef s = direction s
     \<and> isDirection (direction s)
     \<and> pendingOk (directionRef s) (nextDirectionRef s)"

text \<open>A timer is armed exactly while running and not game over, at the current speed.\<close>

definition timerInvariant :: "game \<Rightarrow> bool" where
  "timerInvariant s \<longleftrightarrow>
     loopRef s = (if isRunning s \<and> \<not> isGameOver s then Some (speed s) else None)"

definition invariant :: "game \<Rightarrow> bool" where
  "invariant s \<longleftrightarrow> coreInvariant s \<and> timerInvariant s"

section \<open>Example states\<close>

text \<open>A snake of four cells curled in a square: its head is beside its tail.\<close>

definition curledState :: game where
  "curledState =
     \<lparr>snake = [\<lparr>x = 1, y = 1\<rparr>, \<lparr>x = 1, y = 0\<rparr>, \<lparr>x = 0, y = 0\<rparr>, \<lparr>x = 0, y = 1\<rparr>],
      direction = \<lparr>x = 0, y = 1\<rparr>,
      food = \<lparr>x = 5, y = 5\<rparr>,
      isRunning = True,
      isGameOver = False,
      score = 10,
      highScore = Finite 10,
      speed = 146,
      nextDirectionRef = Some \<lparr>x = - 1, y = 0\<rparr>,
      directionRef = \<lparr>x = 0, y = 1\<rparr>,
      loopRef = Some 146\<rparr>"

text \<open>The initial snake moved to the right wall, still heading right.\<close>

definition wallState :: game where
  "wallState =
     \<lparr>snake = [\<lparr>x = 24, y = 12\<rparr>, \<lparr>x = 23, y = 12\<rparr>, \<lparr>x = 22, y = 12\<rparr>],
      direction = \<lparr>x = 1, y = 0\<rparr>,
      food = \<lparr>x = 3, y = 7\<rparr>,
      isRunning = True,
      isGameOver = False,
      score = 0,
      highScore = Finite 40,
      speed = 150,
      nextDirectionRef = None,
      directionRef = \<lparr>x = 1, y = 0\<rparr>,
      loopRef = Some 150\<rparr>"

text \<open>The initial snake running, with the food on the cell in front of its head.\<close>

definition feedingState :: game where
  "feedingState =
     \<lparr>snake = createInitialSnake,
      direction = \<lparr>x = 1, y = 0\<rparr>,
      food = \<lparr>x = 14, y = 12\<rparr>,
      isRunning = True,
      isGameOver = False,
      score = 0,
      highScore = Finite 0,
      speed = 150,
      nextDirectionRef = None,
      directionRef = \<lparr>x = 1, y = 0\<rparr>,
      loopRef = Some 150\<rparr>"

text \<open>
  A snake that fills the board except the corner \<open>(0,0)\<close>, where the food lies: it sweeps
  the rows alternately rightwards and leftwards, its tail in the last row and its head at
  \<open>(1,0)\<close>, heading left.
\<close>

definition sweepRow :: "int \<Rightarrow> Cell list" where
  "sweepRow yi = (if even yi then gridRow yi else rev (gridRow yi))"

definition sweepPath :: "Cell list" where
  "sweepPath = concat (map sweepRow [0 .. GRID_SIZE - 1])"

definition fullBoardState :: game where
  "fullBoardState =
     \<lparr>snake = tl sweepPath,
      direction = \<lparr>x = - 1, y = 0\<rparr>,
      food = \<lparr>x = 0, y = 0\<rparr>,
      isRunning = True,
      isGameOver = False,
      score = 6210,
      highScore = Finite 6210,
      speed = 60,
      nextDirectionRef = None,
      directionRef = \<lparr>x = - 1, y = 0\<rparr>,
      loopRef = Some 60\<rparr>"

text \<open>The mounted game after the first press of the up arrow: running, up pending.\<close>

definition startedState :: game where
  "startedState = loopEffect (handleKeyDown ''ArrowUp'' (Abs_rnd 0) (mount None (Abs_rnd 0)))"

text \<open>The run of \<open>wallState\<close> after its collision.\<close>

definition gameOverState :: game where
  "gameOverState = loopEffect (handleGameOver wallState)"

section \<open>Facts about numbers\<close>

lemma Finite_less [simp]: "Finite a < Finite b \<longleftrightarrow> a < b"
  by (auto simp: less_jsnumber_def)

lemma max_Finite [simp]: "max (Finite a) (Finite b) = Finite (max a b)"
  by (simp add: max_def)

lemma toNumber_exact: "n < 2 ^ 53 \<Longrightarrow> toNumber n = Finite (int n)"
  by (simp add: toNumber_def)

lemma signedNumber_exact:
  "n < 2 ^ 53 \<Longrightarrow> sign = 1 \<or> sign = - 1 \<Longrightarrow> signedNumber sign n = Finite (sign * int n)"
  by (auto simp: signedNumber_def toNumber_exact negateNumber_def)

lemma signedNumber_plus: "signedNumber 1 n = toNumber n"
  by (simp add: signedNumber_def)

section \<open>Facts about keys and the scan\<close>

lemma digitValue_digitChar: "d < 10 \<Longrightarrow> digitValue (digitChar d) = d"
  by (simp add: digitValue_def digitChar_def)

lemma isDigitChar_digitChar: "d < 10 \<Longrightarrow> isDigitChar (digitChar d)"
  by (simp add: isDigitChar_def digitChar_def)

lemma decimalValue_digitsOf: "decimalValue (digitsOf n) = n"
proof (induction n rule: digitsOf.induct)
  case (1 n)
  show ?case
  proof (cases "n < 10")
    case True
    then show ?thesis
      by (subst digitsOf.simps) (simp add: decimalValue_def digitValue_digitChar)
  next
    case False
    with 1 have "decimalValue (digitsOf (n div 10)) = n div 10" by simp
    with False show ?thesis
      by (subst digitsOf.simps) (simp add: decimalValue_def digitValue_digitChar)
  qed
qed

lemma digitsOf_digits: "\<forall>c \<in> set (digitsOf n). isDigitChar c"
proof (induction n rule: digitsOf.induct)
  case (1 n)
  show ?case
  proof (cases "n < 10")
    case True
    then show ?thesis
      by (subst digitsOf.simps) (simp add: isDigitChar_digitChar)
  next
    case False
    with 1 have "\<forall>c \<in> set (digitsOf (n div 10)). isDigitChar c" by simp
    with False show ?thesis
      by (subst digitsOf.simps) (simp add: isDigitChar_digitChar)
  qed
qed

lemma digitsOf_nonempty: "digitsOf n \<noteq> []"
  by (subst digitsOf.simps) simp

lemma digitsOf_inj: "digitsOf n = digitsOf m \<Longrightarrow> n = m"
  by (metis decimalValue_digitsOf)

lemma minus_not_digit: "\<not> isDigitChar CHR ''-''"
  by (simp add: isDigitChar_def)

lemma colon_not_digit: "\<not> isDigitChar CHR '':''"
  by (simp add: isDigitChar_def)

lemma numberToString_inj: "numberToString i = numberToString j \<Longrightarrow> i = j"
proof -
  assume eq: "numberToString i = numberToString j"
  have hd_digit: "isDigitChar (hd (digitsOf n))" for n
    using digitsOf_digits [of n] digitsOf_nonempty [of n] by (cases "digitsOf n") auto
  show ?thesis
  proof (cases "i < 0")
    case True
    show ?thesis
    proof (cases "j < 0")
      case True
      with \<open>i < 0\<close> eq have "digitsOf (nat (- i)) = digitsOf (nat (- j))"
        by (simp add: numberToString_def)
      then have "nat (- i) = nat (- j)" by (rule digitsOf_inj)
      with True \<open>i < 0\<close> show ?thesis by simp
    next
      case False
      with \<open>i < 0\<close> eq have "CHR ''-'' # digitsOf (nat (- i)) = digitsOf (nat j)"
        by (simp add: numberToString_def)
      then have "hd (digitsOf (nat j)) = CHR ''-''" by (metis list.sel(1))
      with hd_digit [of "nat j"] minus_not_digit show ?thesis by simp
    qed
  next
    case False
    show ?thesis
    proof (cases "j < 0")
      case True
      with \<open>\<not> i < 0\<close> eq have "digitsOf (nat i) = CHR ''-'' # digitsOf (nat (- j))"
        by (simp add: numberToString_def)
      then have "hd (digitsOf (nat i)) = CHR ''-''" by (metis list.sel(1))
      with hd_digit [of "nat i"] minus_not_digit show ?thesis by simp
    next
      case False
      with \<open>\<not> i < 0\<close> eq have "digitsOf (nat i) = digitsOf (nat j)"
        by (simp add: numberToString_def)
      then have "nat i = nat j" by (rule digitsOf_inj)
      with False \<open>\<not> i < 0\<close> show ?thesis by simp
    qed
  qed
qed

lemma numberToString_no_colon: "CHR '':'' \<notin> set (numberToString i)"
proof -
  have "CHR '':'' \<notin> set (digitsOf n)" for n
    using digitsOf_digits [of n] colon_not_digit by blast
  then show ?thesis by (simp add: numberToString_def)
qed

lemma takeWhile_until: "c \<notin> set a \<Longrightarrow> takeWhile (\<lambda>d. d \<noteq> c) (a @ c # b) = a"
  by (induction a) auto

lemma split_at_colon:
  assumes "a @ CHR '':'' # b = a' @ CHR '':'' # b'"
    and "CHR '':'' \<notin> set a" and "CHR '':'' \<notin> set a'"
  shows "a = a' \<and> b = b'"
proof -
  have "takeWhile (\<lambda>c. c \<noteq> CHR '':'') (a @ CHR '':'' # b) = a"
    using assms(2) by (rule takeWhile_until)
  moreover have "takeWhile (\<lambda>c. c \<noteq> CHR '':'') (a' @ CHR '':'' # b') = a'"
    using assms(3) by (rule takeWhile_until)
  ultimately have "a = a'" using assms(1) by simp
  with assms(1) show ?thesis by simp
qed

lemma cellKey_inj: "cellKey a = cellKey b \<Longrightarrow> a = b"
proof -
  assume "cellKey a = cellKey b"
  then have "numberToString (x a) = numberToString (x b) \<and> numberToString (y a) = numberToString (y b)"
    unfolding cellKey_def
    by (intro split_at_colon) (simp_all add: numberToString_no_colon)
  then have "x a = x b" and "y a = y b"
    by (auto dest: numberToString_inj)
  then show ?thesis by simp
qed

lemma cellKey_mem: "cellKey c \<in> cellKey ` S \<longleftrightarrow> c \<in> S"
  by (auto dest: cellKey_inj)

lemma scanRow_eq:
  "scanRow occ yi xi spaces =
     spaces @ filter (\<lambda>c. cellKey c \<notin> occ) (map (\<lambda>xi. \<lparr>x = xi, y = yi\<rparr>) [xi .. GRID_SIZE - 1])"
proof (induction occ yi xi spaces rule: scanRow.induct)
  case (1 occ yi xi spaces)
  show ?case
  proof (cases "xi < GRID_SIZE")
    case True
    then have range: "[xi .. GRID_SIZE - 1] = xi # [xi + 1 .. GRID_SIZE - 1]"
      by (simp add: upto_rec1)
    from True 1 show ?thesis
      by (subst scanRow.simps) (simp add: range)
  next
    case False
    then show ?thesis
      by (subst scanRow.simps) simp
  qed
qed

lemma scanRow_gridRow:
  "scanRow occ yi 0 spaces = spaces @ filter (\<lambda>c. cellKey c \<notin> occ) (gridRow yi)"
  by (simp add: scanRow_eq gridRow_def)

lemma scanGrid_eq:
  "scanGrid occ yi spaces =
     spaces @ filter (\<lambda>c. cellKey c \<notin> occ) (concat (map gridRow [yi .. GRID_SIZE - 1]))"
proof (induction occ yi spaces rule: scanGrid.induct)
  case (1 occ yi spaces)
  show ?case
  proof (cases "yi < GRID_SIZE")
    case True
    then have range: "[yi .. GRID_SIZE - 1] = yi # [yi + 1 .. GRID_SIZE - 1]"
      by (simp add: upto_rec1)
    from True 1 show ?thesis
      by (subst scanGrid.simps) (simp add: range scanRow_gridRow)
  next
    case False
    then show ?thesis
      by (subst scanGrid.simps) simp
  qed
qed

lemma freeSpaces_freeCells: "freeSpaces occupied = freeCells (set occupied)"
  by (simp add: freeSpaces_def freeCells_def scanGrid_eq gridCells_def cellKey_mem)

lemma gridCells_inBounds: "c \<in> set gridCells \<Longrightarrow> inBounds c"
  by (auto simp: gridCells_def gridRow_def inBounds_def)

lemma inBounds_gridCells:
  assumes "inBounds c"
  shows "c \<in> set gridCells"
proof -
  from assms have row: "y c \<in> set [0 .. GRID_SIZE - 1]" and col: "x c \<in> set [0 .. GRID_SIZE - 1]"
    by (simp_all add: inBounds_def)
  have "c = \<lparr>x = x c, y = y c\<rparr>" by simp
  from this col have "c \<in> set (gridRow (y c))"
    unfolding gridRow_def set_map by (rule image_eqI)
  with row show ?thesis
    unfolding gridCells_def by auto
qed

lemma set_gridCells: "set gridCells = {c. inBounds c}"
  using gridCells_inBounds inBounds_gridCells by blast

lemma set_freeCells: "set (freeCells occ) = {c. inBounds c \<and> c \<notin> occ}"
  by (auto simp: freeCells_def set_gridCells)

lemma sorted_wrt_upto: "sorted_wrt (<) [i .. j]"
proof -
  have "sorted [i .. j]" and "distinct [i .. j]" by simp_all
  then show ?thesis by (simp add: strict_sorted_iff)
qed

lemma sorted_gridRow: "sorted_wrt rowMajorBefore (gridRow yi)"
  unfolding gridRow_def
  by (simp add: sorted_wrt_map rowMajorBefore_def sorted_wrt_upto)

lemma y_gridRow: "c \<in> set (gridRow yi) \<Longrightarrow> y c = yi"
  by (auto simp: gridRow_def)

lemma sorted_rows:
  "sorted_wrt (<) ys \<Longrightarrow> sorted_wrt rowMajorBefore (concat (map gridRow ys))"
proof (induction ys)
  case Nil
  then show ?case by simp
next
  case (Cons yi ys)
  then have "\<forall>a \<in> set (gridRow yi). \<forall>b \<in> set (concat (map gridRow ys)). rowMajorBefore a b"
    by (fastforce simp: rowMajorBefore_def dest: y_gridRow)
  with Cons show ?case
    by (simp add: sorted_wrt_append sorted_gridRow)
qed

lemma sorted_gridCells: "sorted_wrt rowMajorBefore gridCells"
  unfolding gridCells_def by (rule sorted_rows) (rule sorted_wrt_upto)

lemma sorted_freeCells: "sorted_wrt rowMajorBefore (freeCells occ)"
  unfolding freeCells_def by (rule sorted_wrt_filter) (rule sorted_gridCells)

lemma random_index: "n \<noteq> 0 \<Longrightarrow> nat \<lfloor>Rep_rnd u * real n\<rfloor> < n"
proof -
  assume "n \<noteq> 0"
  have u: "0 \<le> Rep_rnd u" "Rep_rnd u < 1" using Rep_rnd [of u] by simp_all
  from \<open>n \<noteq> 0\<close> u(2) have "Rep_rnd u * real n < real n" by simp
  moreover from u(1) have "0 \<le> Rep_rnd u * real n" by simp
  ultimately show ?thesis by (simp add: floor_less_iff nat_less_iff)
qed

lemma getRandomFood_mem:
  "freeSpaces occupied \<noteq> [] \<Longrightarrow> getRandomFood occupied u \<in> set (freeSpaces occupied)"
  by (simp add: getRandomFood_def Let_def random_index)

lemma getRandomFood_fallback:
  "freeSpaces occupied = [] \<Longrightarrow> getRandomFood occupied u = \<lparr>x = 0, y = 0\<rparr>"
  by (simp add: getRandomFood_def)

lemma freeSpaces_empty_iff:
  "freeSpaces occupied = [] \<longleftrightarrow> (\<forall>c. inBounds c \<longrightarrow> c \<in> set occupied)"
proof -
  have "freeSpaces occupied = [] \<longleftrightarrow> set (freeCells (set occupied)) = {}"
    by (simp add: freeSpaces_freeCells)
  also have "\<dots> \<longleftrightarrow> (\<forall>c. inBounds c \<longrightarrow> c \<in> set occupied)"
    unfolding set_freeCells by blast
  finally show ?thesis .
qed

section \<open>Food spawning\<close>

text \<open>
  C8. The scan of \<open>getRandomFood\<close> lists exactly the grid cells that are not occupied, in
  row-major order (\<open>y\<close> outer, \<open>x\<close> inner). When the list is non-empty the result is one of
  its members, hence in bounds and not occupied; when it is empty, which happens exactly
  when every grid cell is occupied, the result is the fallback cell \<open>(0,0)\<close>.
\<close>

theorem getRandomFood_free_cell:
  "freeSpaces occupied = freeCells (set occupied)
   \<and> set (freeSpaces occupied) = {c. inBounds c \<and> c \<notin> set occupied}
   \<and> sorted_wrt rowMajorBefore (freeSpaces occupied)
   \<and> (freeSpaces occupied \<noteq> [] \<longrightarrow>
        getRandomFood occupied u \<in> set (freeSpaces occupied)
        \<and> inBounds (getRandomFood occupied u)
        \<and> getRandomFood occupied u \<notin> set occupied)
   \<and> (freeSpaces occupied = [] \<longrightarrow>
        (\<forall>c. inBounds c \<longrightarrow> c \<in> set occupied)
        \<and> getRandomFood occupied u = \<lparr>x = 0, y = 0\<rparr>)"
proof -
  have cells: "set (freeSpaces occupied) = {c. inBounds c \<and> c \<notin> set occupied}"
    by (simp add: freeSpaces_freeCells set_freeCells)
  have member: "getRandomFood occupied u \<in> set (freeSpaces occupied)"
    if "freeSpaces occupied \<noteq> []"
    using that by (rule getRandomFood_mem)
  have full: "\<forall>c. inBounds c \<longrightarrow> c \<in> set occupied" if "freeSpaces occupied = []"
    using that by (simp add: freeSpaces_empty_iff)
  show ?thesis
    using cells member full getRandomFood_fallback [of occupied u]
    by (auto simp: freeSpaces_freeCells sorted_freeCells)
qed

theorem getRandomFood_free_cell_witness:
  "freeSpaces createInitialSnake \<noteq> []
   \<and> getRandomFood createInitialSnake (Abs_rnd (1 / 2)) \<in> set (freeSpaces createInitialSnake)
   \<and> getRandomFood createInitialSnake (Abs_rnd (1 / 2)) \<notin> set createInitialSnake
   \<and> freeSpaces gridCells = []
   \<and> getRandomFood gridCells (Abs_rnd (1 / 2)) = \<lparr>x = 0, y = 0\<rparr>"
proof -
  note initial = getRandomFood_free_cell [of createInitialSnake "Abs_rnd (1 / 2)"]
  note full = getRandomFood_free_cell [of gridCells "Abs_rnd (1 / 2)"]
  have "\<lparr>x = 0, y = 0\<rparr> \<in> {c. inBounds c \<and> c \<notin> set createInitialSnake}"
    by (simp add: inBounds_def createInitialSnake_def GRID_SIZE_def)
  with initial have nonempty: "freeSpaces createInitialSnake \<noteq> []" by auto
  have none: "{c. inBounds c \<and> c \<notin> set gridCells} = {}"
    by (simp add: set_gridCells)
  from full have "set (freeSpaces gridCells) = {c. inBounds c \<and> c \<notin> set gridCells}"
    by blast
  from this none have "set (freeSpaces gridCells) = {}" by (rule trans)
  then have empty: "freeSpaces gridCells = []" by (simp only: set_empty)
  from nonempty empty initial full show ?thesis by blast
qed

section \<open>Facts about one step\<close>

lemma cellsEqual_iff: "cellsEqual a b \<longleftrightarrow> a = b"
  by (cases a, cases b) (simp add: cellsEqual_def)

lemma hitsSelf_iff: "hitsSelf previousSnake nextHead \<longleftrightarrow> nextHead \<in> set previousSnake"
  by (auto simp: hitsSelf_def list_ex_iff cellsEqual_iff)

lemma hitsWall_iff: "hitsWall c \<longleftrightarrow> \<not> inBounds c"
  by (auto simp: hitsWall_def inBounds_def)

lemma step_collision:
  assumes "snake s = head # rest"
    and "hitsWall (nextHeadOf head d) \<or> nextHeadOf head d \<in> set (snake s)"
  shows "step d u s = Inr (handleGameOver s)"
  using assms by (auto simp: step_def Let_def hitsSelf_iff)

lemma step_eat:
  assumes "snake s = head # rest"
    and "\<not> hitsWall (nextHeadOf head d)" and "nextHeadOf head d \<notin> set (snake s)"
    and "nextHeadOf head d = food s"
  shows "step d u s =
     Inr (s\<lparr>food := getRandomFood (nextHeadOf head d # snake s) u,
            score := score s + 10,
            highScore := max (highScore s) (Finite (score s + 10)),
            speed := max SPEED_FLOOR (speed s - SPEED_STEP),
            snake := nextHeadOf head d # snake s\<rparr>)"
proof -
  have "(if Finite (score s + 10) > highScore s then Finite (score s + 10) else highScore s)
      = max (highScore s) (Finite (score s + 10))"
    by (auto simp: max_def)
  with assms show ?thesis
    by (simp add: step_def Let_def hitsSelf_iff cellsEqual_iff)
qed

lemma step_move:
  assumes "snake s = head # rest"
    and "\<not> hitsWall (nextHeadOf head d)" and "nextHeadOf head d \<notin> set (snake s)"
    and "nextHeadOf head d \<noteq> food s"
  shows "step d u s = Inr (s\<lparr>snake := nextHeadOf head d # butlast (snake s)\<rparr>)"
  using assms by (simp add: step_def Let_def hitsSelf_iff cellsEqual_iff)

lemma snake_consumePending [simp]: "snake (consumePending s) = snake s"
  by (simp add: consumePending_def split: option.splits)

lemma food_consumePending [simp]: "food (consumePending s) = food s"
  by (simp add: consumePending_def split: option.splits)

lemma score_consumePending [simp]: "score (consumePending s) = score s"
  by (simp add: consumePending_def split: option.splits)

lemma highScore_consumePending [simp]: "highScore (consumePending s) = highScore s"
  by (simp add: consumePending_def split: option.splits)

lemma speed_consumePending [simp]: "speed (consumePending s) = speed s"
  by (simp add: consumePending_def split: option.splits)

lemma flags_consumePending [simp]:
  "isRunning (consumePending s) = isRunning s" "isGameOver (consumePending s) = isGameOver s"
  by (simp_all add: consumePending_def split: option.splits)

lemma loopEffect_fields [simp]:
  "snake (loopEffect s) = snake s" "food (loopEffect s) = food s"
  "score (loopEffect s) = score s" "speed (loopEffect s) = speed s"
  "highScore (loopEffect s) = highScore s" "isRunning (loopEffect s) = isRunning s"
  "isGameOver (loopEffect s) = isGameOver s" "direction (loopEffect s) = direction s"
  "directionRef (loopEffect s) = directionRef s"
  "nextDirectionRef (loopEffect s) = nextDirectionRef s"
  by (simp_all add: loopEffect_def)

lemma loopRef_loopEffect:
  "loopRef (loopEffect s) = (if isRunning s \<and> \<not> isGameOver s then Some (speed s) else None)"
  by (simp add: loopEffect_def)

lemma handleGameOver_fields [simp]:
  "snake (handleGameOver s) = snake s" "food (handleGameOver s) = food s"
  "score (handleGameOver s) = score s" "speed (handleGameOver s) = speed s"
  "highScore (handleGameOver s) = highScore s" "\<not> isRunning (handleGameOver s)"
  "isGameOver (handleGameOver s)" "direction (handleGameOver s) = direction s"
  "directionRef (handleGameOver s) = directionRef s"
  "nextDirectionRef (handleGameOver s) = nextDirectionRef s"
  by (simp_all add: handleGameOver_def)

lemma fire_Elapse_armed:
  "loopRef s \<noteq> None \<Longrightarrow> step (activeDirection s) u (consumePending s) = Inr s'
     \<Longrightarrow> fire Elapse u s = Inr (loopEffect s')"
  by (auto simp: fire_def intervalCallback_def)

lemma fire_Elapse_collision:
  assumes "snake s = head # rest" and "loopRef s \<noteq> None"
    and "hitsWall (nextHeadOf head (activeDirection s))
         \<or> nextHeadOf head (activeDirection s) \<in> set (snake s)"
  shows "fire Elapse u s = Inr (loopEffect (handleGameOver (consumePending s)))"
proof -
  from assms(1) have "snake (consumePending s) = head # rest" by simp
  moreover from assms(3) have "hitsWall (nextHeadOf head (activeDirection s))
      \<or> nextHeadOf head (activeDirection s) \<in> set (snake (consumePending s))" by simp
  ultimately have "step (activeDirection s) u (consumePending s)
      = Inr (handleGameOver (consumePending s))"
    by (rule step_collision)
  with assms(2) show ?thesis by (rule fire_Elapse_armed)
qed

section \<open>Collisions\<close>

text \<open>
  C1. For a snake of length at least 2, a step whose candidate next head is the current
  tail cell (the last element of the body before the move) ends the run: the self check
  runs against the whole pre-move body. This holds whether or not the food lies there, so
  in particular on every tick on which the snake does not eat, although the tail would
  have left that cell. The interval callback with that direction in effect does the same
  and leaves no timer armed.
\<close>

theorem tail_cell_is_fatal:
  assumes "2 \<le> length (snake s)"
    and "nextHeadOf (hd (snake s)) d = last (snake s)"
  shows "step d u s = Inr (handleGameOver s)
     \<and> isGameOver (handleGameOver s) \<and> \<not> isRunning (handleGameOver s)
     \<and> snake (handleGameOver s) = snake s
     \<and> (d = activeDirection s \<and> loopRef s \<noteq> None \<longrightarrow>
          (\<exists>s'. fire Elapse u s = Inr s' \<and> isGameOver s' \<and> \<not> isRunning s'
                \<and> snake s' = snake s \<and> loopRef s' = None))"
proof -
  from assms(1) obtain head rest where body: "snake s = head # rest"
    by (cases "snake s") auto
  then have "last (snake s) \<in> set (snake s)" by simp
  with assms(2) body have hit: "nextHeadOf head d \<in> set (snake s)" by simp
  with body have "step d u s = Inr (handleGameOver s)"
    by (intro step_collision) auto
  moreover have "\<exists>s'. fire Elapse u s = Inr s' \<and> isGameOver s' \<and> \<not> isRunning s'
        \<and> snake s' = snake s \<and> loopRef s' = None"
    if "d = activeDirection s" and "loopRef s \<noteq> None"
  proof -
    from body that hit
    have "fire Elapse u s = Inr (loopEffect (handleGameOver (consumePending s)))"
      by (intro fire_Elapse_collision) auto
    then show ?thesis by (simp add: loopRef_loopEffect)
  qed
  ultimately show ?thesis by simp
qed

theorem tail_cell_is_fatal_witness:
  "2 \<le> length (snake curledState)
   \<and> nextHeadOf (hd (snake curledState)) \<lparr>x = - 1, y = 0\<rparr> = last (snake curledState)
   \<and> last (snake curledState) \<noteq> food curledState
   \<and> step \<lparr>x = - 1, y = 0\<rparr> (Abs_rnd 0) curledState = Inr (handleGameOver curledState)
   \<and> (\<exists>s'. fire Elapse (Abs_rnd 0) curledState = Inr s' \<and> isGameOver s' \<and> \<not> isRunning s'
          \<and> snake s' = snake curledState \<and> loopRef s' = None)"
proof -
  have long: "2 \<le> length (snake curledState)"
    by (simp add: curledState_def)
  have tail: "nextHeadOf (hd (snake curledState)) \<lparr>x = - 1, y = 0\<rparr> = last (snake curledState)"
    by (simp add: curledState_def nextHeadOf_def)
  have tick: "\<lparr>x = - 1, y = 0\<rparr> = activeDirection curledState \<and> loopRef curledState \<noteq> None"
    by (simp add: curledState_def activeDirection_def)
  have food: "last (snake curledState) \<noteq> food curledState"
    by (simp add: curledState_def)
  from tail_cell_is_fatal [OF long tail, of "Abs_rnd 0"] tick long tail food
  show ?thesis by blast
qed

text \<open>
  C3. If the candidate next head is outside the grid (\<open>x < 0\<close>, \<open>y < 0\<close>, \<open>x \<ge> 25\<close> or
  \<open>y \<ge> 25\<close>) or equals a cell of the body before the move, the step sets the game-over
  flag, clears the running flag and returns the body it was given; food, score, speed and
  high score are untouched as well. The interval callback does so for the direction in
  effect, and no timer stays armed.
\<close>

theorem collision_ends_run:
  assumes "snake s = head # rest"
    and "nextHead = nextHeadOf head d"
    and "x nextHead < 0 \<or> y nextHead < 0 \<or> x nextHead \<ge> 25 \<or> y nextHead \<ge> 25
         \<or> nextHead \<in> set (snake s)"
  shows "step d u s = Inr (handleGameOver s)
     \<and> isGameOver (handleGameOver s) \<and> \<not> isRunning (handleGameOver s)
     \<and> snake (handleGameOver s) = snake s \<and> food (handleGameOver s) = food s
     \<and> score (handleGameOver s) = score s \<and> speed (handleGameOver s) = speed s
     \<and> highScore (handleGameOver s) = highScore s
     \<and> (d = activeDirection s \<and> loopRef s \<noteq> None \<longrightarrow>
          (\<exists>s'. fire Elapse u s = Inr s' \<and> isGameOver s' \<and> \<not> isRunning s'
                \<and> snake s' = snake s \<and> food s' = food s \<and> score s' = score s
                \<and> speed s' = speed s \<and> highScore s' = highScore s \<and> loopRef s' = None))"
proof -
  from assms(2,3) have hit: "hitsWall (nextHeadOf head d) \<or> nextHeadOf head d \<in> set (snake s)"
    by (auto simp: hitsWall_def GRID_SIZE_def)
  with assms(1) have "step d u s = Inr (handleGameOver s)"
    by (rule step_collision)
  moreover have "\<exists>s'. fire Elapse u s = Inr s' \<and> isGameOver s' \<and> \<not> isRunning s'
        \<and> snake s' = snake s \<and> food s' = food s \<and> score s' = score s
        \<and> speed s' = speed s \<and> highScore s' = highScore s \<and> loopRef s' = None"
    if "d = activeDirection s" and "loopRef s \<noteq> None"
  proof -
    from assms(1) that hit
    have "fire Elapse u s = Inr (loopEffect (handleGameOver (consumePending s)))"
      by (intro fire_Elapse_collision) auto
    then show ?thesis by (simp add: loopRef_loopEffect)
  qed
  ultimately show ?thesis by simp
qed

theorem collision_ends_run_witness:
  "snake wallState = \<lparr>x = 24, y = 12\<rparr> # [\<lparr>x = 23, y = 12\<rparr>, \<lparr>x = 22, y = 12\<rparr>]
   \<and> \<lparr>x = 25, y = 12\<rparr> = nextHeadOf \<lparr>x = 24, y = 12\<rparr> (activeDirection wallState)
   \<and> step (activeDirection wallState) (Abs_rnd 0) wallState = Inr (handleGameOver wallState)
   \<and> snake (handleGameOver wallState) = snake wallState
   \<and> (\<exists>s'. fire Elapse (Abs_rnd 0) wallState = Inr s' \<and> isGameOver s' \<and> \<not> isRunning s'
          \<and> snake s' = snake wallState \<and> food s' = food wallState \<and> score s' = score wallState
          \<and> speed s' = speed wallState \<and> highScore s' = highScore wallState
          \<and> loopRef s' = None)"
proof -
  have body: "snake wallState = \<lparr>x = 24, y = 12\<rparr> # [\<lparr>x = 23, y = 12\<rparr>, \<lparr>x = 22, y = 12\<rparr>]"
    by (simp add: wallState_def)
  have next_head: "\<lparr>x = 25, y = 12\<rparr> = nextHeadOf \<lparr>x = 24, y = 12\<rparr> (activeDirection wallState)"
    by (simp add: wallState_def nextHeadOf_def activeDirection_def)
  have wall: "x \<lparr>x = 25, y = 12\<rparr> < 0 \<or> y \<lparr>x = 25, y = 12\<rparr> < 0
      \<or> x \<lparr>x = 25, y = 12\<rparr> \<ge> 25 \<or> y \<lparr>x = 25, y = 12\<rparr> \<ge> 25
      \<or> \<lparr>x = 25, y = 12\<rparr> \<in> set (snake wallState)"
    by simp
  have armed: "loopRef wallState \<noteq> None"
    by (simp add: wallState_def)
  from collision_ends_run [OF body next_head wall, of "Abs_rnd 0"] armed body next_head
  show ?thesis by blast
qed

section \<open>Eating\<close>

lemma getRandomFood_cases:
  "if \<exists>c. inBounds c \<and> c \<notin> set occupied
   then inBounds (getRandomFood occupied u) \<and> getRandomFood occupied u \<notin> set occupied
   else getRandomFood occupied u = \<lparr>x = 0, y = 0\<rparr>"
proof (cases "freeSpaces occupied = []")
  case True
  then show ?thesis
    by (auto simp: freeSpaces_empty_iff getRandomFood_fallback)
next
  case False
  then have "getRandomFood occupied u \<in> set (freeCells (set occupied))"
    using getRandomFood_mem [of occupied u] by (simp add: freeSpaces_freeCells)
  then have "inBounds (getRandomFood occupied u) \<and> getRandomFood occupied u \<notin> set occupied"
    by (simp add: set_freeCells)
  moreover from False have "\<exists>c. inBounds c \<and> c \<notin> set occupied"
    by (auto simp: freeSpaces_empty_iff)
  ultimately show ?thesis by simp
qed

lemma step_eat_consumed:
  assumes "snake s = head # rest"
    and "\<not> hitsWall (nextHeadOf head d)" and "nextHeadOf head d \<notin> set (snake s)"
    and "nextHeadOf head d = food s"
  shows "\<exists>s'. step d u s = Inr s' \<and> foodConsumed s (nextHeadOf head d) s'
           \<and> nextDirectionRef s' = nextDirectionRef s \<and> directionRef s' = directionRef s"
proof -
  let ?s' = "s\<lparr>food := getRandomFood (nextHeadOf head d # snake s) u,
               score := score s + 10,
               highScore := max (highScore s) (Finite (score s + 10)),
               speed := max SPEED_FLOOR (speed s - SPEED_STEP),
               snake := nextHeadOf head d # snake s\<rparr>"
  from assms have "step d u s = Inr ?s'" by (rule step_eat)
  moreover have "foodConsumed s (nextHeadOf head d) ?s'"
    using getRandomFood_cases [of "nextHeadOf head d # snake s" u]
    by (auto simp: foodConsumed_def SPEED_FLOOR_def SPEED_STEP_def split: if_splits)
  ultimately show ?thesis by simp
qed

lemma foodConsumed_consumePending:
  "foodConsumed (consumePending s) c s' \<longleftrightarrow> foodConsumed s c s'"
  by (auto simp: foodConsumed_def)

lemma foodConsumed_loopEffect:
  "foodConsumed s c (loopEffect s') \<longleftrightarrow> foodConsumed s c s'"
  by (auto simp: foodConsumed_def)

lemma set_sweepPath: "set sweepPath = set gridCells"
proof -
  have "set (sweepRow yi) = set (gridRow yi)" for yi
    by (simp add: sweepRow_def)
  then show ?thesis
    by (simp add: sweepPath_def gridCells_def)
qed

lemma tl_sweepPath:
  "tl sweepPath =
     \<lparr>x = 1, y = 0\<rparr> # map (\<lambda>xi. \<lparr>x = xi, y = 0\<rparr>) [2 .. GRID_SIZE - 1]
       @ concat (map sweepRow [1 .. GRID_SIZE - 1])"
  and hd_sweepPath: "sweepPath = \<lparr>x = 0, y = 0\<rparr> # tl sweepPath"
proof -
  have rows: "[0 .. GRID_SIZE - 1] = 0 # [1 .. GRID_SIZE - 1]"
    and cols: "[0 .. GRID_SIZE - 1] = 0 # 1 # [2 .. GRID_SIZE - 1]"
    by (simp_all add: GRID_SIZE_def upto_rec1)
  have first: "sweepRow 0 = \<lparr>x = 0, y = 0\<rparr> # \<lparr>x = 1, y = 0\<rparr>
      # map (\<lambda>xi. \<lparr>x = xi, y = 0\<rparr>) [2 .. GRID_SIZE - 1]"
    unfolding sweepRow_def gridRow_def cols by simp
  have path: "sweepPath = sweepRow 0 @ concat (map sweepRow [1 .. GRID_SIZE - 1])"
    unfolding sweepPath_def rows by simp
  show "tl sweepPath =
     \<lparr>x = 1, y = 0\<rparr> # map (\<lambda>xi. \<lparr>x = xi, y = 0\<rparr>) [2 .. GRID_SIZE - 1]
       @ concat (map sweepRow [1 .. GRID_SIZE - 1])"
    unfolding path first by simp
  then show "sweepPath = \<lparr>x = 0, y = 0\<rparr> # tl sweepPath"
    unfolding path first by simp
qed

lemma origin_not_in_tl_sweepPath: "\<lparr>x = 0, y = 0\<rparr> \<notin> set (tl sweepPath)"
proof -
  have "y c = yi" if "c \<in> set (sweepRow yi)" for c yi
    using that by (auto simp: sweepRow_def gridRow_def split: if_splits)
  then have "\<lparr>x = 0, y = 0\<rparr> \<notin> set (concat (map sweepRow [1 .. GRID_SIZE - 1]))"
    by fastforce
  then show ?thesis
    unfolding tl_sweepPath by auto
qed

text \<open>
  C2. When the candidate next head is the food cell and hits neither a wall nor the
  body, the step adds exactly 10 to the score, prepends the new head without removing the
  tail (length plus one), sets the speed to \<open>max 60 (speed - 4)\<close>, sets the high score to
  the maximum of its old value and the new score, and draws the new food from the cells
  free of the new body; if no grid cell is free the food is \<open>(0,0)\<close>. The interval
  callback does so for the direction in effect and re-arms the timer at the new speed.
\<close>

theorem food_consumption:
  assumes "snake s = head # rest"
    and "nextHead = nextHeadOf head d"
    and "nextHead = food s"
    and "\<not> hitsWall nextHead" and "\<not> hitsSelf (snake s) nextHead"
  shows "(\<exists>s'. step d u s = Inr s' \<and> foodConsumed s nextHead s')
     \<and> (d = activeDirection s \<and> loopRef s \<noteq> None \<longrightarrow>
          (\<exists>s'. fire Elapse u s = Inr s' \<and> foodConsumed s nextHead s'
                \<and> loopRef s' = (if isRunning s \<and> \<not> isGameOver s then Some (speed s') else None)))"
proof -
  from assms have eat: "\<not> hitsWall (nextHeadOf head d)" "nextHeadOf head d \<notin> set (snake s)"
      "nextHeadOf head d = food s"
    by (simp_all add: hitsSelf_iff)
  from assms(1) eat have "\<exists>s'. step d u s = Inr s' \<and> foodConsumed s (nextHeadOf head d) s'"
    using step_eat_consumed [of s head rest d u] by blast
  moreover have "\<exists>s'. fire Elapse u s = Inr s' \<and> foodConsumed s (nextHeadOf head d) s'
        \<and> loopRef s' = (if isRunning s \<and> \<not> isGameOver s then Some (speed s') else None)"
    if "d = activeDirection s" and "loopRef s \<noteq> None"
  proof -
    from assms(1) eat
    obtain s' where s': "step d u (consumePending s) = Inr s'"
        "foodConsumed (consumePending s) (nextHeadOf head d) s'"
      using step_eat_consumed [of "consumePending s" head rest d u] by auto
    from that s'(1) have "fire Elapse u s = Inr (loopEffect s')"
      by (intro fire_Elapse_armed) simp_all
    moreover from s'(2) have "foodConsumed s (nextHeadOf head d) (loopEffect s')"
      by (simp add: foodConsumed_consumePending foodConsumed_loopEffect)
    moreover from s'(2) have "isRunning s' = isRunning s \<and> isGameOver s' = isGameOver s"
      by (simp add: foodConsumed_def)
    ultimately show ?thesis
      by (simp add: loopRef_loopEffect)
  qed
  ultimately show ?thesis using assms(2) by simp
qed

theorem food_consumption_witness:
  "snake feedingState = \<lparr>x = 13, y = 12\<rparr> # [\<lparr>x = 12, y = 12\<rparr>, \<lparr>x = 11, y = 12\<rparr>]
   \<and> \<lparr>x = 14, y = 12\<rparr> = nextHeadOf \<lparr>x = 13, y = 12\<rparr> (activeDirection feedingState)
   \<and> \<lparr>x = 14, y = 12\<rparr> = food feedingState
   \<and> \<not> hitsWall \<lparr>x = 14, y = 12\<rparr>
   \<and> \<not> hitsSelf (snake feedingState) \<lparr>x = 14, y = 12\<rparr>
   \<and> (\<exists>s'. fire Elapse (Abs_rnd (1 / 2)) feedingState = Inr s'
          \<and> score s' = 10 \<and> highScore s' = Finite 10 \<and> speed s' = 146 \<and> length (snake s') = 4
          \<and> snake s' = \<lparr>x = 14, y = 12\<rparr> # snake feedingState
          \<and> inBounds (food s') \<and> food s' \<notin> set (snake s') \<and> loopRef s' = Some 146)
   \<and> snake fullBoardState = hd (snake fullBoardState) # tl (snake fullBoardState)
   \<and> \<lparr>x = 0, y = 0\<rparr> = nextHeadOf (hd (snake fullBoardState)) \<lparr>x = - 1, y = 0\<rparr>
   \<and> \<lparr>x = 0, y = 0\<rparr> = food fullBoardState
   \<and> \<not> hitsSelf (snake fullBoardState) \<lparr>x = 0, y = 0\<rparr>
   \<and> (\<exists>s'. step \<lparr>x = - 1, y = 0\<rparr> (Abs_rnd (1 / 2)) fullBoardState = Inr s'
          \<and> score s' = 6220 \<and> speed s' = 60 \<and> snake s' = sweepPath
          \<and> (\<forall>c. inBounds c \<longrightarrow> c \<in> set (snake s')) \<and> food s' = \<lparr>x = 0, y = 0\<rparr>)"
proof -
  have full_body: "snake fullBoardState = hd (snake fullBoardState) # tl (snake fullBoardState)"
    and full_head: "hd (snake fullBoardState) = \<lparr>x = 1, y = 0\<rparr>"
    by (simp_all add: fullBoardState_def tl_sweepPath)
  from full_head
  have full_next: "\<lparr>x = 0, y = 0\<rparr> = nextHeadOf (hd (snake fullBoardState)) \<lparr>x = - 1, y = 0\<rparr>"
    by (simp add: nextHeadOf_def)
  have full_food: "\<lparr>x = 0, y = 0\<rparr> = food fullBoardState"
    by (simp add: fullBoardState_def)
  have full_wall: "\<not> hitsWall \<lparr>x = 0, y = 0\<rparr>"
    by (simp add: hitsWall_def GRID_SIZE_def)
  have full_self: "\<not> hitsSelf (snake fullBoardState) \<lparr>x = 0, y = 0\<rparr>"
    using origin_not_in_tl_sweepPath by (simp add: hitsSelf_iff fullBoardState_def)
  from food_consumption
      [OF full_body full_next full_food full_wall full_self, of "Abs_rnd (1 / 2)"]
  obtain t where t: "step \<lparr>x = - 1, y = 0\<rparr> (Abs_rnd (1 / 2)) fullBoardState = Inr t"
      "foodConsumed fullBoardState \<lparr>x = 0, y = 0\<rparr> t"
    by blast
  have full_start: "score fullBoardState = 6210" "speed fullBoardState = 60"
      "snake fullBoardState = tl sweepPath"
    by (simp_all add: fullBoardState_def)
  from t(2) have t_fields: "score t = 6220" "speed t = 60" "snake t = sweepPath"
    unfolding foodConsumed_def full_start using hd_sweepPath by simp_all
  from t_fields(3) have t_full: "\<forall>c. inBounds c \<longrightarrow> c \<in> set (snake t)"
    by (simp add: set_sweepPath set_gridCells)
  from t(2) have "if \<exists>c. inBounds c \<and> c \<notin> set (snake t)
      then inBounds (food t) \<and> food t \<notin> set (snake t)
      else food t = \<lparr>x = 0, y = 0\<rparr>"
    unfolding foodConsumed_def by blast
  with t_full have t_food: "food t = \<lparr>x = 0, y = 0\<rparr>"
    by (simp split: if_splits)
  from t(1) t_fields t_full t_food
  have full: "\<exists>s'. step \<lparr>x = - 1, y = 0\<rparr> (Abs_rnd (1 / 2)) fullBoardState = Inr s'
          \<and> score s' = 6220 \<and> speed s' = 60 \<and> snake s' = sweepPath
          \<and> (\<forall>c. inBounds c \<longrightarrow> c \<in> set (snake s')) \<and> food s' = \<lparr>x = 0, y = 0\<rparr>"
    by blast
  have body: "snake feedingState = \<lparr>x = 13, y = 12\<rparr> # [\<lparr>x = 12, y = 12\<rparr>, \<lparr>x = 11, y = 12\<rparr>]"
    by (simp add: feedingState_def createInitialSnake_def GRID_SIZE_def)
  have next_head:
    "\<lparr>x = 14, y = 12\<rparr> = nextHeadOf \<lparr>x = 13, y = 12\<rparr> (activeDirection feedingState)"
    by (simp add: feedingState_def nextHeadOf_def activeDirection_def)
  have on_food: "\<lparr>x = 14, y = 12\<rparr> = food feedingState"
    by (simp add: feedingState_def)
  have no_wall: "\<not> hitsWall \<lparr>x = 14, y = 12\<rparr>"
    by (simp add: hitsWall_def GRID_SIZE_def)
  have no_self: "\<not> hitsSelf (snake feedingState) \<lparr>x = 14, y = 12\<rparr>"
    by (simp add: body hitsSelf_def cellsEqual_def)
  have armed: "loopRef feedingState \<noteq> None"
    by (simp add: feedingState_def)
  from food_consumption [OF body next_head on_food no_wall no_self, of "Abs_rnd (1 / 2)"] armed
  obtain s' where s': "fire Elapse (Abs_rnd (1 / 2)) feedingState = Inr s'"
      "foodConsumed feedingState \<lparr>x = 14, y = 12\<rparr> s'"
      "loopRef s' = (if isRunning feedingState \<and> \<not> isGameOver feedingState
                     then Some (speed s') else None)"
    by blast
  have start: "score feedingState = 0" "highScore feedingState = Finite 0"
      "speed feedingState = 150"
    by (simp_all add: feedingState_def)
  from s'(2) have fields: "score s' = 10" "highScore s' = Finite 10" "speed s' = 146"
      "snake s' = \<lparr>x = 14, y = 12\<rparr> # snake feedingState"
    unfolding foodConsumed_def start by simp_all
  from fields(4) body have "\<lparr>x = 0, y = 0\<rparr> \<notin> set (snake s')" by simp
  moreover have "inBounds \<lparr>x = 0, y = 0\<rparr>" by (simp add: inBounds_def GRID_SIZE_def)
  ultimately have free: "\<exists>c. inBounds c \<and> c \<notin> set (snake s')" by blast
  from s'(2) have "if \<exists>c. inBounds c \<and> c \<notin> set (snake s')
      then inBounds (food s') \<and> food s' \<notin> set (snake s')
      else food s' = \<lparr>x = 0, y = 0\<rparr>"
    unfolding foodConsumed_def by blast
  with free have fresh: "inBounds (food s') \<and> food s' \<notin> set (snake s')"
    by (simp split: if_splits)
  from s'(3) fields(3) have timer: "loopRef s' = Some 146"
    by (simp add: feedingState_def)
  from fields(4) body have "length (snake s') = 4" by simp
  with s'(1) fields fresh timer
  have fed: "\<exists>s'. fire Elapse (Abs_rnd (1 / 2)) feedingState = Inr s'
          \<and> score s' = 10 \<and> highScore s' = Finite 10 \<and> speed s' = 146 \<and> length (snake s') = 4
          \<and> snake s' = \<lparr>x = 14, y = 12\<rparr> # snake feedingState
          \<and> inBounds (food s') \<and> food s' \<notin> set (snake s') \<and> loopRef s' = Some 146"
    by blast
  from fed full body next_head on_food no_wall no_self full_body full_next full_food full_self
  show ?thesis by (intro conjI)
qed

section \<open>Restart\<close>

lemma createInitialSnake_cells:
  "createInitialSnake = [\<lparr>x = 13, y = 12\<rparr>, \<lparr>x = 12, y = 12\<rparr>, \<lparr>x = 11, y = 12\<rparr>]"
  by (simp add: createInitialSnake_def GRID_SIZE_def)

lemma reset_then_effects:
  "loopEffect (directionEffect (resetGame True u s)) = freshRun u (highScore s)"
  by (cases s)
    (simp add: resetGame_def directionEffect_def loopEffect_def freshRun_def
      createInitialSnake_cells INITIAL_SPEED_def Let_def)

lemma mount_None: "mount None u = (freshRun u (Finite 0))\<lparr>isRunning := False, loopRef := None\<rparr>"
  by (simp add: mount_def loadHighScore_def directionEffect_def loopEffect_def freshRun_def
      initialState_def createInitialSnake_cells INITIAL_SPEED_def)

lemma freshRun_food:
  "inBounds (food (freshRun u hs)) \<and> food (freshRun u hs) \<notin> set (snake (freshRun u hs))"
proof -
  let ?body = "[\<lparr>x = 13, y = 12\<rparr>, \<lparr>x = 12, y = 12\<rparr>, \<lparr>x = 11, y = 12\<rparr>]"
  have "inBounds \<lparr>x = 0, y = 0\<rparr> \<and> \<lparr>x = 0, y = 0\<rparr> \<notin> set ?body"
    by (simp add: inBounds_def GRID_SIZE_def)
  then have "\<exists>c. inBounds c \<and> c \<notin> set ?body" by blast
  with getRandomFood_cases [of ?body u]
  have "inBounds (getRandomFood ?body u) \<and> getRandomFood ?body u \<notin> set ?body"
    by (simp split: if_splits)
  then show ?thesis by (simp add: freshRun_def)
qed

text \<open>
  C5. A restart, from whatever state it is invoked, produces the initial configuration and
  runs: the three cells \<open>(13,12), (12,12), (11,12)\<close> of the centre row with the head
  rightmost, direction \<open>(1,0)\<close>, no pending direction, score 0, speed 150, a freshly drawn
  food cell (in bounds, off the snake), not game over, running, with the timer armed at
  150. It is the mounted state but for the running flag, the timer and the high score,
  which a restart keeps. The Restart button (whenever enabled), the space key during game
  over and \<open>handleStart\<close> during game over all do this.
\<close>

theorem restart_recreates_initial_state:
  "handleRestart u s = resetGame True u s
   \<and> loopEffect (directionEffect (handleRestart u s)) = freshRun u (highScore s)
   \<and> freshRun u (highScore s)
       = (mount None u)\<lparr>isRunning := True, loopRef := Some 150, highScore := highScore s\<rparr>
   \<and> inBounds (food (freshRun u (highScore s)))
   \<and> food (freshRun u (highScore s)) \<notin> set (snake (freshRun u (highScore s)))
   \<and> (\<not> restartDisabled s \<longrightarrow> fire ClickRestart u s = Inr (freshRun u (highScore s)))
   \<and> (isGameOver s \<longrightarrow> fire (KeyDown '' '') u s = Inr (freshRun u (highScore s)))
   \<and> (isGameOver s \<longrightarrow>
        loopEffect (directionEffect (handleStart u s)) = freshRun u (highScore s))"
proof -
  have restart: "handleRestart u s = resetGame True u s"
    by (simp add: handleRestart_def)
  have "fire ClickRestart u s = Inr (freshRun u (highScore s))" if "\<not> restartDisabled s"
    using that
    by (simp add: fire_def available_def callsReset_def handler_def restart reset_then_effects)
  moreover have "fire (KeyDown '' '') u s = Inr (freshRun u (highScore s))" if "isGameOver s"
    using that
    by (simp add: fire_def available_def callsReset_def handler_def handleKeyDown_def
        normalizeKey_def toLowerCase_def reset_then_effects)
  moreover have "loopEffect (directionEffect (handleStart u s)) = freshRun u (highScore s)"
    if "isGameOver s"
    using that by (simp add: handleStart_def reset_then_effects)
  moreover have "freshRun u (highScore s)
      = (mount None u)\<lparr>isRunning := True, loopRef := Some 150, highScore := highScore s\<rparr>"
    by (simp add: mount_None freshRun_def)
  ultimately show ?thesis
    using freshRun_food [of u "highScore s"] by (simp add: restart reset_then_effects)
qed

theorem restart_recreates_initial_state_witness:
  "\<not> restartDisabled curledState
   \<and> fire ClickRestart (Abs_rnd 0) curledState = Inr (freshRun (Abs_rnd 0) (Finite 10))
   \<and> \<not> restartDisabled (handlePause curledState)
   \<and> fire ClickRestart (Abs_rnd 0) (handlePause curledState)
       = Inr (freshRun (Abs_rnd 0) (Finite 10))
   \<and> isGameOver (handleGameOver wallState)
   \<and> fire ClickRestart (Abs_rnd 0) (handleGameOver wallState)
       = Inr (freshRun (Abs_rnd 0) (Finite 40))
   \<and> fire (KeyDown '' '') (Abs_rnd 0) (handleGameOver wallState)
       = Inr (freshRun (Abs_rnd 0) (Finite 40))"
proof -
  have running: "\<not> restartDisabled curledState" "highScore curledState = Finite 10"
    by (simp_all add: restartDisabled_def curledState_def)
  have paused: "\<not> restartDisabled (handlePause curledState)"
      "highScore (handlePause curledState) = Finite 10"
    by (simp_all add: restartDisabled_def handlePause_def curledState_def)
  have over: "isGameOver (handleGameOver wallState)"
      "\<not> restartDisabled (handleGameOver wallState)"
      "highScore (handleGameOver wallState) = Finite 40"
    by (simp_all add: restartDisabled_def wallState_def)
  from restart_recreates_initial_state [of "Abs_rnd 0" curledState]
    restart_recreates_initial_state [of "Abs_rnd 0" "handlePause curledState"]
    restart_recreates_initial_state [of "Abs_rnd 0" "handleGameOver wallState"]
    running paused over
  show ?thesis by simp
qed

section \<open>The stored high score\<close>

lemma highScore_mount:
  "highScore (mount stored u) =
     (case stored of
        None \<Rightarrow> Finite 0
      | Some str \<Rightarrow> (case parseInt10 str of None \<Rightarrow> Finite 0 | Some parsed \<Rightarrow> parsed))"
  by (simp add: mount_def loadHighScore_def directionEffect_def initialState_def parseInt10_def
      afterWhiteSpace_def afterSign_def split: option.splits)

lemma parseInt10_None_iff: "parseInt10 str = None \<longleftrightarrow> \<not> startsNumeric str"
  by (cases "afterSign (afterWhiteSpace str)") (simp_all add: parseInt10_def startsNumeric_def)

lemma parseInt10_numeric:
  "startsNumeric str \<Longrightarrow>
     parseInt10 str = Some (signedNumber (leadingSign str) (mathInt (leadingDigits str)))"
  by (cases "afterSign (afterWhiteSpace str)")
    (simp_all add: parseInt10_def startsNumeric_def leadingSign_def leadingDigits_def)

lemma leadingSign_cases: "leadingSign str = 1 \<or> leadingSign str = - 1"
  by (simp add: leadingSign_def signOf_def split: list.splits)

lemma digit_not_white: "isDecimalDigit c \<Longrightarrow> \<not> isStrWhiteSpaceChar c"
  by (auto simp: isDecimalDigit_def isStrWhiteSpaceChar_def)

lemma digit_not_sign: "isDecimalDigit c \<Longrightarrow> c \<noteq> 43 \<and> c \<noteq> 45"
  by (auto simp: isDecimalDigit_def)

lemma parseInt10_wellFormed:
  assumes "wellFormedDecimal str"
  shows "parseInt10 str = Some (toNumber (mathInt str))"
proof -
  from assms obtain c rest where str: "str = c # rest" and c: "isDecimalDigit c"
    and digits: "\<forall>d \<in> set str. isDecimalDigit d"
    by (cases str) (auto simp: wellFormedDecimal_def list_all_iff)
  from str c have white: "afterWhiteSpace str = str"
    by (simp add: afterWhiteSpace_def digit_not_white)
  from str c have sign: "afterSign str = str" "signOf str = 1"
    using digit_not_sign [of c] by (simp_all add: afterSign_def signOf_def)
  from digits have run: "takeWhile isDecimalDigit str = str"
    by (simp add: takeWhile_eq_all_conv)
  from str have "str \<noteq> []" by simp
  then show ?thesis
    by (simp add: parseInt10_def white sign run Let_def signedNumber_plus)
qed

lemma bitLength_bounds: "0 < n \<Longrightarrow> 2 ^ (bitLength n - 1) \<le> n \<and> n < 2 ^ bitLength n"
proof (induction n rule: bitLength.induct)
  case (1 n)
  show ?case
  proof (cases "n div 2 = 0")
    case True
    with "1.prems" have "n = 1" by (simp add: div_eq_0_iff)
    then show ?thesis by (simp add: bitLength.simps)
  next
    case False
    with 1 have half: "2 ^ (bitLength (n div 2) - 1) \<le> n div 2" "n div 2 < 2 ^ bitLength (n div 2)"
      by simp_all
    from False have "0 < bitLength (n div 2)" by (subst bitLength.simps) simp
    then have step: "bitLength (n div 2) = Suc (bitLength (n div 2) - 1)" by simp
    from "1.prems" have len: "bitLength n = Suc (bitLength (n div 2))"
      by (subst bitLength.simps) simp
    have "2 ^ (bitLength n - 1) = 2 * 2 ^ (bitLength (n div 2) - 1)"
      unfolding len using step by (metis diff_Suc_1 power_Suc)
    also from half(1) have "\<dots> \<le> 2 * (n div 2)" by simp
    also have "\<dots> \<le> n" by simp
    finally have lower: "2 ^ (bitLength n - 1) \<le> n" .
    from half(2) have "n < 2 * 2 ^ bitLength (n div 2)" by linarith
    then have "n < 2 ^ bitLength n" unfolding len by simp
    with lower show ?thesis by simp
  qed
qed

lemma toNumber_overflow:
  assumes "2 ^ 1024 \<le> n"
  shows "toNumber n = PosInfinity"
proof -
  define e where "e = bitLength n - 53"
  define q where "q = n div 2 ^ e"
  define m where "m = (if 2 * (n mod 2 ^ e) > 2 ^ e \<or> (2 * (n mod 2 ^ e) = 2 ^ e \<and> odd q)
    then q + 1 else q)"
  have "(0::nat) < 2 ^ 1024" by simp
  with assms have pos: "0 < n" by linarith
  have "(2::nat) ^ 53 \<le> 2 ^ 1024" by simp
  with assms have big: "\<not> n < 2 ^ 53" by linarith
  from bitLength_bounds [OF pos] have upper: "n < 2 ^ bitLength n"
    and lower: "2 ^ (bitLength n - 1) \<le> n" by simp_all
  from assms upper have "(2::nat) ^ 1024 < 2 ^ bitLength n" by linarith
  then have len: "1024 < bitLength n"
    by (rule power_less_imp_less_exp [of 2, rotated]) simp
  then have split: "bitLength n - 1 = 52 + e" by (simp add: e_def)
  have "2 ^ 52 * 2 ^ e \<le> n" using lower unfolding split by (simp add: power_add)
  then have "2 ^ 52 \<le> q" unfolding q_def by (simp add: less_eq_div_iff_mult_less_eq)
  moreover have "q \<le> m" by (simp add: m_def)
  ultimately have scaled: "2 ^ 52 * 2 ^ e \<le> m * 2 ^ e" by simp
  from len have "(2::nat) ^ 1024 \<le> 2 ^ (52 + e)"
    unfolding e_def by (intro power_increasing) simp_all
  then have "(2::nat) ^ 1024 \<le> 2 ^ 52 * 2 ^ e" by (simp only: power_add)
  from this scaled have over: "2 ^ 1024 \<le> m * 2 ^ e" by (rule order_trans)
  from big
  have "toNumber n = (if 2 ^ 1024 \<le> m * 2 ^ e then PosInfinity else Finite (int (m * 2 ^ e)))"
    unfolding toNumber_def Let_def m_def q_def e_def by (simp only: if_False)
  with over show ?thesis by (simp only: if_True)
qed

text \<open>
  C6, as the code has it. A missing value, the empty string and every string that does
  not start, after optional leading white space and one optional sign, with a decimal
  digit leave the high score at 0: such a value is treated as absent. Every other string
  loads the Number \<^verbatim>\<open>parseInt\<close> returns for the signed integer its leading digits denote,
  whatever follows them: that integer itself when it is below \<open>2^53\<close> in magnitude, the
  nearest double beyond, an infinity from \<open>2^1024\<close> on. So does a well-formed base-10
  non-negative integer string.
\<close>

theorem stored_high_score_load:
  "highScore (mount None u) = Finite 0
   \<and> loadHighScore None s = s
   \<and> highScore (mount (Some []) u) = Finite 0
   \<and> (\<not> startsNumeric str \<longrightarrow>
        loadHighScore (Some str) s = s \<and> highScore (mount (Some str) u) = Finite 0)
   \<and> (startsNumeric str \<longrightarrow>
        highScore (mount (Some str) u)
          = signedNumber (leadingSign str) (mathInt (leadingDigits str)))
   \<and> (startsNumeric str \<and> mathInt (leadingDigits str) < 2 ^ 53 \<longrightarrow>
        highScore (mount (Some str) u)
          = Finite (leadingSign str * int (mathInt (leadingDigits str))))
   \<and> (wellFormedDecimal str \<longrightarrow> highScore (mount (Some str) u) = toNumber (mathInt str))
   \<and> (wellFormedDecimal str \<and> mathInt str < 2 ^ 53 \<longrightarrow>
        highScore (mount (Some str) u) = Finite (int (mathInt str)))
   \<and> (wellFormedDecimal str \<and> 2 ^ 1024 \<le> mathInt str \<longrightarrow>
        highScore (mount (Some str) u) = PosInfinity)"
proof -
  have absent: "loadHighScore (Some str) s = s \<and> highScore (mount (Some str) u) = Finite 0"
    if "\<not> startsNumeric str"
  proof -
    from that have "parseInt10 str = None" by (simp add: parseInt10_None_iff)
    then show ?thesis by (simp add: highScore_mount loadHighScore_def)
  qed
  have prefix: "highScore (mount (Some str) u)
      = signedNumber (leadingSign str) (mathInt (leadingDigits str))"
    if "startsNumeric str"
    using parseInt10_numeric [OF that] by (simp add: highScore_mount)
  have exact: "highScore (mount (Some str) u)
      = Finite (leadingSign str * int (mathInt (leadingDigits str)))"
    if "startsNumeric str" and "mathInt (leadingDigits str) < 2 ^ 53"
    using prefix [OF that(1)] signedNumber_exact [OF that(2) leadingSign_cases [of str]]
    by simp
  have whole: "highScore (mount (Some str) u) = toNumber (mathInt str)"
    if "wellFormedDecimal str"
    using parseInt10_wellFormed [OF that] by (simp add: highScore_mount)
  have empty: "highScore (mount (Some []) u) = Finite 0"
    by (simp add: highScore_mount parseInt10_def afterWhiteSpace_def afterSign_def)
  from absent prefix exact whole empty show ?thesis
    by (simp add: highScore_mount loadHighScore_def toNumber_exact toNumber_overflow)
qed

lemmas parse_defs =
  parseInt10_def afterWhiteSpace_def afterSign_def signOf_def isStrWhiteSpaceChar_def
  isDecimalDigit_def mathInt_def startsNumeric_def wellFormedDecimal_def utf16_def
  leadingSign_def leadingDigits_def signedNumber_def negateNumber_def

theorem stored_high_score_load_witness:
  "\<not> startsNumeric (utf16 ''abc'') \<and> highScore (mount (Some (utf16 ''abc'')) (Abs_rnd 0)) = Finite 0
   \<and> \<not> startsNumeric (utf16 ''- 5'')
   \<and> highScore (mount (Some (utf16 ''- 5'')) (Abs_rnd 0)) = Finite 0
   \<and> startsNumeric (utf16 '' +42.9'')
   \<and> highScore (mount (Some (utf16 '' +42.9'')) (Abs_rnd 0)) = Finite 42
   \<and> startsNumeric (65279 # 12288 # utf16 ''-7 up'')
   \<and> highScore (mount (Some (65279 # 12288 # utf16 ''-7 up'')) (Abs_rnd 0)) = Finite (- 7)
   \<and> wellFormedDecimal (utf16 ''150'')
   \<and> highScore (mount (Some (utf16 ''150'')) (Abs_rnd 0)) = Finite 150
   \<and> wellFormedDecimal (utf16 ''9007199254740993'')
   \<and> highScore (mount (Some (utf16 ''9007199254740993'')) (Abs_rnd 0)) = Finite 9007199254740992"
proof -
  have a: "\<not> startsNumeric (utf16 ''abc'')" and b: "\<not> startsNumeric (utf16 ''- 5'')"
    and c: "startsNumeric (utf16 '' +42.9'')"
    and d: "startsNumeric (65279 # 12288 # utf16 ''-7 up'')"
    and e: "wellFormedDecimal (utf16 ''150'')"
    and f: "wellFormedDecimal (utf16 ''9007199254740993'')"
    by (simp_all add: parse_defs)
  have value_c: "mathInt (leadingDigits (utf16 '' +42.9'')) = 42"
      "leadingSign (utf16 '' +42.9'') = 1"
    and value_d: "mathInt (leadingDigits (65279 # 12288 # utf16 ''-7 up'')) = 7"
      "leadingSign (65279 # 12288 # utf16 ''-7 up'') = - 1"
    and value_e: "mathInt (utf16 ''150'') = 150"
    and value_f: "mathInt (utf16 ''9007199254740993'') = 9007199254740993"
    by (simp_all add: parse_defs)
  have rounded: "toNumber 9007199254740993 = Finite 9007199254740992"
    by (simp add: toNumber_def bitLength.simps Let_def)
  from stored_high_score_load [of "Abs_rnd 0" feedingState "utf16 ''abc''"] a
  have load_a: "highScore (mount (Some (utf16 ''abc'')) (Abs_rnd 0)) = Finite 0" by (simp add: signedNumber_def negateNumber_def toNumber_exact)
  from stored_high_score_load [of "Abs_rnd 0" feedingState "utf16 ''- 5''"] b
  have load_b: "highScore (mount (Some (utf16 ''- 5'')) (Abs_rnd 0)) = Finite 0" by (simp add: signedNumber_def negateNumber_def toNumber_exact)
  from stored_high_score_load [of "Abs_rnd 0" feedingState "utf16 '' +42.9''"] c value_c
  have load_c: "highScore (mount (Some (utf16 '' +42.9'')) (Abs_rnd 0)) = Finite 42" by (simp add: signedNumber_def negateNumber_def toNumber_exact)
  from stored_high_score_load [of "Abs_rnd 0" feedingState "65279 # 12288 # utf16 ''-7 up''"] d value_d
  have load_d: "highScore (mount (Some (65279 # 12288 # utf16 ''-7 up'')) (Abs_rnd 0))
      = Finite (- 7)" by (simp add: signedNumber_def negateNumber_def toNumber_exact)
  from stored_high_score_load [of "Abs_rnd 0" feedingState "utf16 ''150''"] e value_e
  have load_e: "highScore (mount (Some (utf16 ''150'')) (Abs_rnd 0)) = Finite 150" by (simp add: signedNumber_def negateNumber_def toNumber_exact)
  from stored_high_score_load [of "Abs_rnd 0" feedingState "utf16 ''9007199254740993''"] f value_f rounded
  have load_f: "highScore (mount (Some (utf16 ''9007199254740993'')) (Abs_rnd 0))
      = Finite 9007199254740992" by (simp add: signedNumber_def negateNumber_def toNumber_exact)
  from a b c d e f load_a load_b load_c load_d load_e load_f show ?thesis
    by (intro conjI)
qed

text \<open>
  C6 as the specification states it fails: \<^verbatim>\<open>"12abc"\<close> is not a well-formed base-10
  non-negative integer string, and the high score loaded from it is 12.
\<close>

theorem malformed_string_loads_prefix:
  "\<not> wellFormedDecimal (utf16 ''12abc'')
   \<and> highScore (mount (Some (utf16 ''12abc'')) (Abs_rnd 0)) = Finite 12"
  by (simp add: highScore_mount parse_defs toNumber_exact)

section \<open>The invariant holds in every reachable state\<close>

lemma KEY_TO_DIRECTION_isDirection: "KEY_TO_DIRECTION key = Some d \<Longrightarrow> isDirection d"
  by (auto simp: KEY_TO_DIRECTION_def isDirection_def split: if_splits)

lemma padDirection_isDirection: "isDirection (padDirection b)"
  by (cases b) (simp_all add: padDirection_def isDirection_def)

lemma isDirection_not_self_opposite: "isDirection d \<Longrightarrow> \<not> opposite d d"
  by (auto simp: isDirection_def opposite_def)

lemma coreInvariant_loopEffect [simp]: "coreInvariant (loopEffect s) = coreInvariant s"
  by (simp add: coreInvariant_def)

lemma timerInvariant_loopEffect [simp]: "timerInvariant (loopEffect s)"
  by (simp add: timerInvariant_def loopEffect_def)

lemma loopEffect_idem: "timerInvariant s \<Longrightarrow> loopEffect s = s"
  by (simp add: timerInvariant_def loopEffect_def)

lemma coreInvariant_reset: "coreInvariant (directionEffect (resetGame autoStart u s))"
  by (simp add: coreInvariant_def directionEffect_def resetGame_def Let_def
      createInitialSnake_cells isDirection_def)

lemma coreInvariant_initial: "coreInvariant (loadHighScore stored (directionEffect (initialState u)))"
  by (simp add: coreInvariant_def directionEffect_def initialState_def loadHighScore_def
      createInitialSnake_cells isDirection_def split: option.splits)

lemma invariant_mount: "invariant (mount stored u)"
  by (simp add: invariant_def mount_def coreInvariant_initial)

lemma coreInvariant_handleKeyDown:
  assumes "coreInvariant s" and "\<not> (normalizeKey k = '' '' \<and> isGameOver s)"
  shows "coreInvariant (handleKeyDown k u s)"
proof (cases "normalizeKey k = '' ''")
  case True
  with assms show ?thesis
    by (auto simp: handleKeyDown_def coreInvariant_def)
next
  case False
  show ?thesis
  proof (cases "KEY_TO_DIRECTION (normalizeKey k)")
    case None
    with False assms(1) show ?thesis by (simp add: handleKeyDown_def)
  next
    case (Some desired)
    then have "isDirection desired" by (rule KEY_TO_DIRECTION_isDirection)
    with False Some assms(1) show ?thesis
      by (auto simp: handleKeyDown_def coreInvariant_def Let_def)
  qed
qed

lemma coreInvariant_onClickPad:
  assumes "coreInvariant s" and "isDirection desired"
  shows "coreInvariant (onClickPad desired s)"
  using assms by (auto simp: onClickPad_def coreInvariant_def opposite_def Let_def)

lemma coreInvariant_consumePending: "coreInvariant s \<Longrightarrow> coreInvariant (consumePending s)"
  by (auto simp: coreInvariant_def consumePending_def split: option.splits)

lemma step_cases:
  assumes "snake s = head # rest"
  obtains (collision) "step d u s = Inr (handleGameOver s)"
  | (eat) "step d u s =
       Inr (s\<lparr>food := getRandomFood (nextHeadOf head d # snake s) u,
              score := score s + 10,
              highScore := max (highScore s) (Finite (score s + 10)),
              speed := max SPEED_FLOOR (speed s - SPEED_STEP),
              snake := nextHeadOf head d # snake s\<rparr>)"
  | (move) "step d u s = Inr (s\<lparr>snake := nextHeadOf head d # butlast (snake s)\<rparr>)"
proof (cases "hitsWall (nextHeadOf head d) \<or> nextHeadOf head d \<in> set (snake s)")
  case True
  with assms have "step d u s = Inr (handleGameOver s)" by (rule step_collision)
  then show ?thesis by (rule collision)
next
  case False
  show ?thesis
  proof (cases "nextHeadOf head d = food s")
    case True
    with assms False show ?thesis by (intro eat step_eat) auto
  next
    case False
    with assms \<open>\<not> (hitsWall (nextHeadOf head d) \<or> nextHeadOf head d \<in> set (snake s))\<close>
    show ?thesis by (intro move step_move) auto
  qed
qed

lemma step_total: "snake s \<noteq> [] \<Longrightarrow> \<exists>s'. step d u s = Inr s'"
proof -
  assume "snake s \<noteq> []"
  then obtain head rest where "snake s = head # rest" by (cases "snake s") auto
  then show ?thesis by (cases rule: step_cases [where d = d and u = u]) auto
qed

lemma coreInvariant_step:
  assumes "coreInvariant s" and "step d u s = Inr s'"
  shows "coreInvariant s'"
proof -
  from assms(1) obtain head rest where body: "snake s = head # rest"
    by (cases "snake s") (auto simp: coreInvariant_def)
  from body show ?thesis
  proof (cases rule: step_cases [where d = d and u = u])
    case collision
    with assms show ?thesis by (auto simp: coreInvariant_def handleGameOver_def)
  next
    case eat
    with assms show ?thesis by (auto simp: coreInvariant_def)
  next
    case move
    with assms show ?thesis by (auto simp: coreInvariant_def)
  qed
qed

lemma highScore_step:
  assumes "step d u s = Inr s'"
  shows "highScore s \<le> highScore s'"
proof (cases "snake s")
  case Nil
  with assms show ?thesis by (simp add: step_def)
next
  case (Cons head rest)
  then show ?thesis
  proof (cases rule: step_cases [where d = d and u = u])
    case collision
    with assms show ?thesis by auto
  next
    case eat
    with assms show ?thesis by auto
  next
    case move
    with assms show ?thesis by auto
  qed
qed

lemma fire_Elapse_idle: "loopRef s = None \<Longrightarrow> fire Elapse u s = Inr s"
  by (simp add: fire_def)

lemma fire_Elapse_cases:
  assumes "fire Elapse u s = Inr s'"
  obtains (idle) "loopRef s = None" "s' = s"
  | (tick) t where "loopRef s \<noteq> None" "step (activeDirection s) u (consumePending s) = Inr t"
      "s' = loopEffect t"
proof (cases "loopRef s = None")
  case True
  with assms have "s' = s" by (simp add: fire_def)
  with True show ?thesis by (rule idle)
next
  case False
  with assms obtain t where "step (activeDirection s) u (consumePending s) = Inr t"
      "s' = loopEffect t"
    by (auto simp: fire_def intervalCallback_def split: sum.splits)
  with False show ?thesis by (rule tick)
qed

lemma fire_handler:
  assumes "e \<noteq> Elapse"
  shows "fire e u s =
     Inr (if \<not> available e s then s
          else if callsReset e s then loopEffect (directionEffect (handler e u s))
          else loopEffect (handler e u s))"
  using assms by (cases e) (simp_all add: fire_def)

lemma handler_reset: "callsReset e s \<Longrightarrow> handler e u s = resetGame True u s"
  by (cases e)
    (auto simp: callsReset_def handler_def handleKeyDown_def handleStart_def handleRestart_def)

lemma coreInvariant_handler:
  assumes "coreInvariant s" and "e \<noteq> Elapse" and "\<not> callsReset e s"
  shows "coreInvariant (handler e u s)"
proof (cases e)
  case Elapse
  with assms show ?thesis by simp
next
  case (KeyDown k)
  with assms show ?thesis
    by (simp add: handler_def callsReset_def coreInvariant_handleKeyDown)
next
  case (ClickPad b)
  with assms show ?thesis
    by (simp add: handler_def coreInvariant_onClickPad padDirection_isDirection)
next
  case ClickStart
  with assms show ?thesis
    by (auto simp: handler_def callsReset_def handleStart_def coreInvariant_def)
next
  case ClickPause
  with assms show ?thesis
    by (auto simp: handler_def handlePause_def coreInvariant_def)
next
  case ClickResume
  with assms show ?thesis
    by (auto simp: handler_def handleResume_def coreInvariant_def)
next
  case ClickRestart
  with assms show ?thesis by (simp add: callsReset_def)
qed

lemma invariant_fire:
  assumes "invariant s" and "fire e u s = Inr s'"
  shows "invariant s'"
proof (cases "e = Elapse")
  case True
  with assms(2) have "fire Elapse u s = Inr s'" by simp
  then show ?thesis
  proof (cases rule: fire_Elapse_cases)
    case idle
    with assms(1) show ?thesis by simp
  next
    case (tick t)
    from assms(1) have "coreInvariant (consumePending s)"
      by (simp add: invariant_def coreInvariant_consumePending)
    from this tick(2) have "coreInvariant t" by (rule coreInvariant_step)
    with tick(3) show ?thesis by (simp add: invariant_def)
  qed
next
  case False
  note fired = assms(2) [unfolded fire_handler [OF False]]
  show ?thesis
  proof (cases "available e s")
    case False
    with fired assms(1) show ?thesis by simp
  next
    case True
    show ?thesis
    proof (cases "callsReset e s")
      case True
      with fired \<open>available e s\<close> have "s' = loopEffect (directionEffect (resetGame True u s))"
        by (simp add: handler_reset)
      then show ?thesis by (simp add: invariant_def coreInvariant_reset)
    next
      case False
      with fired \<open>available e s\<close> have "s' = loopEffect (handler e u s)" by simp
      moreover from assms(1) \<open>e \<noteq> Elapse\<close> False have "coreInvariant (handler e u s)"
        by (simp add: invariant_def coreInvariant_handler)
      ultimately show ?thesis by (simp add: invariant_def)
    qed
  qed
qed

lemma reachable_invariant: "reachable stored s \<Longrightarrow> invariant s"
  by (induction rule: reachable.induct) (auto intro: invariant_mount invariant_fire)

lemma fire_total: "invariant s \<Longrightarrow> \<exists>s'. fire e u s = Inr s'"
proof (cases "e = Elapse")
  case True
  assume "invariant s"
  then have "snake (consumePending s) \<noteq> []" by (simp add: invariant_def coreInvariant_def)
  then obtain t where "step (activeDirection s) u (consumePending s) = Inr t"
    using step_total by blast
  with True show ?thesis by (simp add: fire_def intervalCallback_def)
next
  case False
  then show ?thesis by (simp add: fire_handler)
qed

section \<open>The high score over a session\<close>

lemma highScore_resetGame [simp]: "highScore (resetGame autoStart u s) = highScore s"
  by (simp add: resetGame_def Let_def)

lemma highScore_handleKeyDown [simp]: "highScore (handleKeyDown k u s) = highScore s"
  by (simp add: handleKeyDown_def Let_def split: option.splits)

lemma highScore_handler [simp]: "highScore (handler e u s) = highScore s"
  by (cases e)
    (simp_all add: handler_def onClickPad_def handleStart_def handlePause_def handleResume_def
      handleRestart_def Let_def)

lemma highScore_directionEffect [simp]: "highScore (directionEffect s) = highScore s"
  by (simp add: directionEffect_def)

lemma highScore_fire:
  assumes "fire e u s = Inr s'"
  shows "highScore s \<le> highScore s'"
proof (cases "e = Elapse")
  case True
  with assms have "fire Elapse u s = Inr s'" by simp
  then show ?thesis
  proof (cases rule: fire_Elapse_cases)
    case idle
    then show ?thesis by simp
  next
    case (tick t)
    from tick(2) have "highScore (consumePending s) \<le> highScore t" by (rule highScore_step)
    with tick(3) show ?thesis by simp
  qed
next
  case False
  from assms [unfolded fire_handler [OF False]] show ?thesis
    by (auto split: if_splits)
qed

lemma highScore_reachable:
  "reachable stored s \<Longrightarrow> highScore (mount stored u) \<le> highScore s"
proof (induction rule: reachable.induct)
  case (mounted u')
  show ?case by (simp add: highScore_mount)
next
  case (fired s e u' s')
  from fired.hyps(2) have "highScore s \<le> highScore s'" by (rule highScore_fire)
  with fired.IH show ?case by simp
qed

lemma feedingState_tick:
  "\<exists>s'. fire Elapse u feedingState = Inr s' \<and> highScore s' = Finite 10"
proof -
  have body: "snake feedingState = \<lparr>x = 13, y = 12\<rparr> # [\<lparr>x = 12, y = 12\<rparr>, \<lparr>x = 11, y = 12\<rparr>]"
    by (simp add: feedingState_def createInitialSnake_cells)
  have idle: "consumePending feedingState = feedingState"
      "activeDirection feedingState = \<lparr>x = 1, y = 0\<rparr>"
    by (simp_all add: consumePending_def activeDirection_def feedingState_def)
  have next_head: "nextHeadOf \<lparr>x = 13, y = 12\<rparr> \<lparr>x = 1, y = 0\<rparr> = \<lparr>x = 14, y = 12\<rparr>"
    by (simp add: nextHeadOf_def)
  have "\<not> hitsWall \<lparr>x = 14, y = 12\<rparr>" by (simp add: hitsWall_def GRID_SIZE_def)
  moreover have "\<lparr>x = 14, y = 12\<rparr> \<notin> set (snake feedingState)" by (simp add: body)
  moreover have "\<lparr>x = 14, y = 12\<rparr> = food feedingState" by (simp add: feedingState_def)
  ultimately have "\<exists>s'. step \<lparr>x = 1, y = 0\<rparr> u feedingState = Inr s'
        \<and> foodConsumed feedingState (nextHeadOf \<lparr>x = 13, y = 12\<rparr> \<lparr>x = 1, y = 0\<rparr>) s'"
    using step_eat_consumed [OF body, of "\<lparr>x = 1, y = 0\<rparr>" u]
    unfolding next_head by blast
  then obtain t where t: "step \<lparr>x = 1, y = 0\<rparr> u feedingState = Inr t"
      "foodConsumed feedingState (nextHeadOf \<lparr>x = 13, y = 12\<rparr> \<lparr>x = 1, y = 0\<rparr>) t"
    by blast
  have start: "score feedingState = 0" "highScore feedingState = Finite 0"
    by (simp_all add: feedingState_def)
  from t(2) have "highScore t = Finite 10"
    unfolding foodConsumed_def start by simp
  moreover from t(1) idle have "fire Elapse u feedingState = Inr (loopEffect t)"
    by (intro fire_Elapse_armed) (simp_all add: feedingState_def)
  ultimately show ?thesis by simp
qed

lemma storedNonNegative_mount:
  "storedNonNegative stored \<Longrightarrow> Finite 0 \<le> highScore (mount stored u)"
  by (simp add: storedNonNegative_def highScore_mount split: option.splits)

text \<open>
  C7, as the code has it. The high score is a number, an integer or an infinity, and no
  event after initialization lowers it: every tick (food consumption included), key
  press, on-screen button, pause, resume and restart leaves it unchanged or raises it,
  and a restart keeps it. Hence it never falls below the Number loaded at initialization,
  and it is non-negative at all times when the stored value is missing, unreadable or
  read as a non-negative number. (The initialization read itself replaces the initial 0
  by whatever \<^verbatim>\<open>parseInt\<close> returns, which may be negative.)
\<close>

theorem high_score_never_decreases:
  "(fire e u s = Inr s' \<longrightarrow> highScore s \<le> highScore s')
   \<and> highScore (resetGame autoStart u s) = highScore s
   \<and> highScore (handleRestart u s) = highScore s
   \<and> highScore (handlePause s) = highScore s
   \<and> highScore (handleResume s) = highScore s
   \<and> (reachable stored s \<longrightarrow> highScore (mount stored u) \<le> highScore s)
   \<and> (reachable stored s \<and> storedNonNegative stored \<longrightarrow> Finite 0 \<le> highScore s)"
proof -
  have "Finite 0 \<le> highScore s" if "reachable stored s" and "storedNonNegative stored"
    using highScore_reachable [OF that(1), of u] storedNonNegative_mount [OF that(2), of u]
    by (rule order_trans [rotated])
  then show ?thesis
    by (auto simp: highScore_fire highScore_reachable handleRestart_def handlePause_def
        handleResume_def)
qed

theorem high_score_never_decreases_witness:
  "(\<exists>s'. fire Elapse (Abs_rnd (1 / 2)) feedingState = Inr s'
        \<and> highScore feedingState = Finite 0 \<and> highScore s' = Finite 10
        \<and> highScore feedingState \<le> highScore s')
   \<and> highScore (handleRestart (Abs_rnd 0) wallState) = Finite 40
   \<and> reachable (Some (utf16 ''150'')) (mount (Some (utf16 ''150'')) (Abs_rnd 0))
   \<and> storedNonNegative (Some (utf16 ''150''))
   \<and> Finite 0 \<le> highScore (mount (Some (utf16 ''150'')) (Abs_rnd 0))
   \<and> reachable (Some (utf16 ''9007199254740993''))
        (loopEffect (handleStart (Abs_rnd 0) (mount (Some (utf16 ''9007199254740993'')) (Abs_rnd 0))))
   \<and> Finite 9007199254740992
        \<le> highScore (loopEffect
             (handleStart (Abs_rnd 0) (mount (Some (utf16 ''9007199254740993'')) (Abs_rnd 0))))"
proof -
  obtain s' where fired: "fire Elapse (Abs_rnd (1 / 2)) feedingState = Inr s'"
      and fed: "highScore s' = Finite 10"
    using feedingState_tick by blast
  have start: "highScore feedingState = Finite 0" "highScore wallState = Finite 40"
    by (simp_all add: feedingState_def wallState_def)
  have reach: "reachable (Some (utf16 ''150'')) (mount (Some (utf16 ''150'')) (Abs_rnd 0))"
    by (rule reachable.mounted)
  have stored: "storedNonNegative (Some (utf16 ''150''))"
    by (simp add: storedNonNegative_def parse_defs toNumber_exact)
  from high_score_never_decreases
      [where e = Elapse and u = "Abs_rnd (1 / 2)" and s = feedingState and s' = s']
    fired fed start
  have tick: "\<exists>s'. fire Elapse (Abs_rnd (1 / 2)) feedingState = Inr s'
        \<and> highScore feedingState = Finite 0 \<and> highScore s' = Finite 10
        \<and> highScore feedingState \<le> highScore s'"
    by auto
  from high_score_never_decreases [where u = "Abs_rnd 0" and s = wallState] start
  have restart: "highScore (handleRestart (Abs_rnd 0) wallState) = Finite 40"
    by simp
  from high_score_never_decreases
      [where u = "Abs_rnd 0" and s = "mount (Some (utf16 ''150'')) (Abs_rnd 0)"
        and stored = "Some (utf16 ''150'')"]
    reach stored
  have positive: "Finite 0 \<le> highScore (mount (Some (utf16 ''150'')) (Abs_rnd 0))"
    by simp
  let ?big = "Some (utf16 ''9007199254740993'')"
  let ?started = "loopEffect (handleStart (Abs_rnd 0) (mount ?big (Abs_rnd 0)))"
  have idle: "showStart (mount ?big (Abs_rnd 0))" "\<not> isGameOver (mount ?big (Abs_rnd 0))"
    by (simp_all add: showStart_def mount_def loadHighScore_def directionEffect_def
        initialState_def loopEffect_def split: option.splits)
  then have "fire ClickStart (Abs_rnd 0) (mount ?big (Abs_rnd 0)) = Inr ?started"
    by (simp add: fire_def available_def callsReset_def handler_def)
  with reachable.mounted [of ?big "Abs_rnd 0"] have reach_big: "reachable ?big ?started"
    by (rule reachable.fired)
  have "highScore (mount ?big (Abs_rnd 0)) = toNumber 9007199254740993"
    by (simp add: highScore_mount parse_defs)
  also have "\<dots> = Finite 9007199254740992"
    by (simp add: toNumber_def bitLength.simps Let_def)
  finally have loaded: "highScore (mount ?big (Abs_rnd 0)) = Finite 9007199254740992" .
  from high_score_never_decreases
      [where u = "Abs_rnd 0" and s = ?started and stored = ?big]
    reach_big loaded
  have big: "Finite 9007199254740992 \<le> highScore ?started"
    by simp
  from tick restart reach stored positive reach_big big show ?thesis by (intro conjI)
qed

text \<open>
  C7 as the specification states it fails at the initialization read: with
  \<^verbatim>\<open>"-5"\<close> stored, the high score of the mounted component is \<open>-5\<close>, below the initial 0.
\<close>

theorem negative_stored_value_is_loaded:
  "highScore (initialState (Abs_rnd 0)) = Finite 0
   \<and> highScore (mount (Some (utf16 ''-5'')) (Abs_rnd 0)) = Finite (- 5)
   \<and> highScore (mount (Some (utf16 ''-5'')) (Abs_rnd 0)) < highScore (initialState (Abs_rnd 0))
   \<and> reachable (Some (utf16 ''-5'')) (mount (Some (utf16 ''-5'')) (Abs_rnd 0))"
  by (simp add: highScore_mount parse_defs toNumber_exact initialState_def reachable.mounted)

section \<open>Directions\<close>

lemma handleKeyDown_opposite:
  assumes "KEY_TO_DIRECTION (normalizeKey k) = Some desired"
    and "opposite (directionRef s) desired"
  shows "handleKeyDown k u s = s"
proof -
  have "KEY_TO_DIRECTION '' '' = None" by (simp add: KEY_TO_DIRECTION_def)
  with assms(1) have "normalizeKey k \<noteq> '' ''" by auto
  with assms show ?thesis by (simp add: handleKeyDown_def)
qed

lemma pad_table: "KEY_TO_DIRECTION (padKey b) = Some (padDirection b)"
  by (cases b) (simp_all add: KEY_TO_DIRECTION_def padKey_def padDirection_def)

lemma onClickPad_opposite: "opposite (directionRef s) desired \<Longrightarrow> onClickPad desired s = s"
  by (simp add: onClickPad_def opposite_def)

lemma step_refs:
  assumes "step d u s = Inr s'"
  shows "directionRef s' = directionRef s \<and> direction s' = direction s
     \<and> nextDirectionRef s' = nextDirectionRef s"
proof (cases "snake s")
  case Nil
  with assms show ?thesis by (simp add: step_def)
next
  case (Cons head rest)
  then show ?thesis
  proof (cases rule: step_cases [where d = d and u = u])
    case collision
    with assms show ?thesis by auto
  next
    case eat
    with assms show ?thesis by auto
  next
    case move
    with assms show ?thesis by auto
  qed
qed

lemma consumePending_refs:
  "directionRef (consumePending s) = activeDirection s
   \<and> nextDirectionRef (consumePending s) = None
   \<and> (coreInvariant s \<longrightarrow> direction (consumePending s) = activeDirection s)"
  by (simp add: consumePending_def activeDirection_def coreInvariant_def split: option.splits)

lemma active_not_opposite:
  "coreInvariant s \<Longrightarrow> \<not> opposite (directionRef s) (activeDirection s)"
  by (cases "nextDirectionRef s")
    (auto simp: coreInvariant_def activeDirection_def dest: isDirection_not_self_opposite)

lemma tick_applies_active:
  assumes "invariant s" and "loopRef s \<noteq> None"
  shows "\<exists>s'. fire Elapse u s = Inr s' \<and> directionRef s' = activeDirection s
           \<and> direction s' = activeDirection s \<and> nextDirectionRef s' = None"
proof -
  from assms(1) have core: "coreInvariant s" by (simp add: invariant_def)
  then have "snake (consumePending s) \<noteq> []" by (simp add: coreInvariant_def)
  then obtain t where t: "step (activeDirection s) u (consumePending s) = Inr t"
    using step_total by blast
  with assms(2) have "fire Elapse u s = Inr (loopEffect t)" by (intro fire_Elapse_armed)
  moreover from step_refs [OF t] consumePending_refs [of s] core
  have "directionRef t = activeDirection s \<and> direction t = activeDirection s
      \<and> nextDirectionRef t = None"
    by simp
  ultimately show ?thesis by simp
qed

lemma directionRef_handler:
  assumes "\<not> callsReset e s"
  shows "directionRef (handler e u s) = directionRef s"
proof (cases e)
  case (KeyDown k)
  with assms show ?thesis
    by (auto simp: handler_def callsReset_def handleKeyDown_def Let_def split: option.splits)
next
  case ClickStart
  with assms show ?thesis by (simp add: handler_def callsReset_def handleStart_def)
qed (simp_all add: handler_def onClickPad_def handlePause_def handleResume_def Let_def,
    use assms in \<open>simp add: callsReset_def\<close>)

lemma directionRef_fire:
  assumes "e \<noteq> Elapse" and "\<not> callsReset e s" and "fire e u s = Inr s'"
  shows "directionRef s' = directionRef s"
  using assms(3) [unfolded fire_handler [OF assms(1)]] assms(2)
  by (auto simp: directionRef_handler split: if_splits)

text \<open>
  C4. A proposed direction that is the exact opposite of the direction in effect
  (\<open>cx + dx = 0\<close> and \<open>cy + dy = 0\<close>) leaves the whole state as it was, for the keyboard and
  for the on-screen buttons alike, so a pending direction is neither overwritten nor
  cleared. In every reachable state the invariant holds, and under it the direction a tick
  applies is never the opposite of the direction in effect before the tick; between two
  ticks no event other than a restart changes the direction in effect.
\<close>

theorem no_instant_reversal:
  "(KEY_TO_DIRECTION (normalizeKey k) = Some desired \<and> opposite (directionRef s) desired \<longrightarrow>
      handleKeyDown k u s = s)
   \<and> (opposite (directionRef s) desired \<longrightarrow> onClickPad desired s = s)
   \<and> (reachable stored s \<longrightarrow> invariant s)
   \<and> (invariant s \<and> loopRef s \<noteq> None \<longrightarrow>
        \<not> opposite (directionRef s) (activeDirection s)
        \<and> (\<exists>s'. fire Elapse u s = Inr s' \<and> directionRef s' = activeDirection s
              \<and> direction s' = activeDirection s \<and> nextDirectionRef s' = None))
   \<and> (e \<noteq> Elapse \<and> \<not> callsReset e s \<and> fire e u s = Inr s' \<longrightarrow>
        directionRef s' = directionRef s)"
  using handleKeyDown_opposite [of k desired s u] onClickPad_opposite [of s desired]
    reachable_invariant [of stored s] tick_applies_active [of s u]
    active_not_opposite [of s] directionRef_fire [of e s u s']
  by (simp add: invariant_def)

lemmas started_defs =
  startedState_def handleKeyDown_def normalizeKey_def KEY_TO_DIRECTION_def mount_def
  loadHighScore_def directionEffect_def initialState_def loopEffect_def opposite_def
  INITIAL_SPEED_def activeDirection_def createInitialSnake_cells

lemma startedState_reachable: "reachable None startedState"
proof -
  have "fire (KeyDown ''ArrowUp'') (Abs_rnd 0) (mount None (Abs_rnd 0)) = Inr startedState"
    by (simp add: fire_def available_def callsReset_def handler_def normalizeKey_def
        startedState_def)
  with reachable.mounted [of None "Abs_rnd 0"] show ?thesis by (rule reachable.fired)
qed

theorem no_instant_reversal_witness:
  "KEY_TO_DIRECTION (normalizeKey ''ArrowLeft'') = Some \<lparr>x = - 1, y = 0\<rparr>
   \<and> opposite (directionRef startedState) \<lparr>x = - 1, y = 0\<rparr>
   \<and> nextDirectionRef startedState = Some \<lparr>x = 0, y = - 1\<rparr>
   \<and> handleKeyDown ''ArrowLeft'' (Abs_rnd 0) startedState = startedState
   \<and> onClickPad \<lparr>x = - 1, y = 0\<rparr> startedState = startedState
   \<and> reachable None startedState
   \<and> loopRef startedState \<noteq> None
   \<and> directionRef startedState = \<lparr>x = 1, y = 0\<rparr>
   \<and> (\<exists>s'. fire Elapse (Abs_rnd 0) startedState = Inr s'
          \<and> directionRef s' = \<lparr>x = 0, y = - 1\<rparr>)"
proof -
  have key: "KEY_TO_DIRECTION (normalizeKey ''ArrowLeft'') = Some \<lparr>x = - 1, y = 0\<rparr>"
    by (simp add: normalizeKey_def KEY_TO_DIRECTION_def)
  have current: "directionRef startedState = \<lparr>x = 1, y = 0\<rparr>"
    and pending: "nextDirectionRef startedState = Some \<lparr>x = 0, y = - 1\<rparr>"
    and armed: "loopRef startedState \<noteq> None"
    and active: "activeDirection startedState = \<lparr>x = 0, y = - 1\<rparr>"
    by (simp_all add: started_defs)
  from current have reverse: "opposite (directionRef startedState) \<lparr>x = - 1, y = 0\<rparr>"
    by (simp add: opposite_def)
  from no_instant_reversal
      [where k = "''ArrowLeft''" and desired = "\<lparr>x = - 1, y = 0\<rparr>" and s = startedState
        and u = "Abs_rnd 0" and stored = None and e = Elapse and s' = startedState]
    key reverse startedState_reachable armed current pending active
  show ?thesis by auto
qed

section \<open>Pause and game over\<close>

lemma elapse_idle: "loopRef s = None \<Longrightarrow> elapse us s = Inr s"
  by (induction us) (simp_all add: fire_Elapse_idle)

lemma invariant_idle: "invariant s \<Longrightarrow> \<not> isRunning s \<or> isGameOver s \<Longrightarrow> loopRef s = None"
  by (auto simp: invariant_def timerInvariant_def)

lemma invariant_armed:
  "invariant s \<Longrightarrow> isRunning s \<Longrightarrow> \<not> isGameOver s \<Longrightarrow> loopRef s = Some (speed s)"
  by (simp add: invariant_def timerInvariant_def)

lemma pause_fields:
  "snake (handlePause s) = snake s"
  "food (handlePause s) = food s"
  "score (handlePause s) = score s"
  "speed (handlePause s) = speed s"
  "highScore (handlePause s) = highScore s"
  "direction (handlePause s) = direction s"
  "directionRef (handlePause s) = directionRef s"
  "nextDirectionRef (handlePause s) = nextDirectionRef s"
  "isGameOver (handlePause s) = isGameOver s"
  "\<not> isRunning (handlePause s)"
  "loopRef (loopEffect (handlePause s)) = None"
  by (simp_all add: handlePause_def loopRef_loopEffect)

lemma resume_after_pause:
  assumes "loopRef s = Some (speed s)" and "isRunning s" and "\<not> isGameOver s"
  shows "loopEffect ((loopEffect (handlePause s))\<lparr>isRunning := True\<rparr>) = s"
  using assms by (cases s) (simp add: handlePause_def loopEffect_def)

lemma resume_handler:
  "\<not> isGameOver p \<Longrightarrow> loopEffect (handleResume p) = loopEffect (p\<lparr>isRunning := True\<rparr>)"
  by (simp add: handleResume_def)

lemma resume_ways:
  assumes "\<not> isRunning p" and "\<not> isGameOver p"
  shows "fire (KeyDown '' '') u p = Inr (loopEffect (p\<lparr>isRunning := True\<rparr>))
     \<and> (0 < score p \<longrightarrow> fire ClickResume u p = Inr (loopEffect (p\<lparr>isRunning := True\<rparr>)))
     \<and> (score p = 0 \<longrightarrow> fire ClickStart u p = Inr (loopEffect (p\<lparr>isRunning := True\<rparr>)))"
  using assms
  by (simp add: fire_def available_def callsReset_def handler_def handleKeyDown_def
      normalizeKey_def toLowerCase_def handleResume_def handleStart_def showResume_def
      showStart_def)

text \<open>
  C9. While the running flag is off (the mounted, idle game or a paused one) no timer is
  armed, so any number of timer periods leaves the whole state, and with it snake, food,
  score, speed and direction, as it was. Pausing a running game changes nothing but the
  running flag and the timer; resuming after any number of periods, by the space key, the
  Resume button (shown when the score is positive) or the Start button (shown when it is
  0), gives back exactly the state before the pause, with the timer armed at the current
  speed: no tick is caught up.
\<close>

theorem pause_stops_the_simulation:
  "(reachable stored s \<longrightarrow> invariant s)
   \<and> (invariant s \<and> \<not> isRunning s \<longrightarrow> loopRef s = None \<and> elapse us s = Inr s)
   \<and> (invariant s \<and> isRunning s \<and> \<not> isGameOver s \<longrightarrow>
        loopRef s = Some (speed s)
        \<and> fire ClickPause u s = Inr (loopEffect (handlePause s))
        \<and> \<not> isRunning (loopEffect (handlePause s))
        \<and> snake (loopEffect (handlePause s)) = snake s
        \<and> food (loopEffect (handlePause s)) = food s
        \<and> score (loopEffect (handlePause s)) = score s
        \<and> speed (loopEffect (handlePause s)) = speed s
        \<and> direction (loopEffect (handlePause s)) = direction s
        \<and> elapse us (loopEffect (handlePause s)) = Inr (loopEffect (handlePause s))
        \<and> loopEffect (handleResume (loopEffect (handlePause s))) = s
        \<and> fire (KeyDown '' '') u (loopEffect (handlePause s)) = Inr s
        \<and> (0 < score s \<longrightarrow> fire ClickResume u (loopEffect (handlePause s)) = Inr s)
        \<and> (score s = 0 \<longrightarrow> fire ClickStart u (loopEffect (handlePause s)) = Inr s))"
proof -
  have idle: "loopRef s = None \<and> elapse us s = Inr s" if "invariant s" and "\<not> isRunning s"
    using that by (simp add: invariant_idle elapse_idle)
  have paused: "loopRef s = Some (speed s)
      \<and> fire ClickPause u s = Inr (loopEffect (handlePause s))
      \<and> elapse us (loopEffect (handlePause s)) = Inr (loopEffect (handlePause s))
      \<and> loopEffect (handleResume (loopEffect (handlePause s))) = s
      \<and> fire (KeyDown '' '') u (loopEffect (handlePause s)) = Inr s
      \<and> (0 < score s \<longrightarrow> fire ClickResume u (loopEffect (handlePause s)) = Inr s)
      \<and> (score s = 0 \<longrightarrow> fire ClickStart u (loopEffect (handlePause s)) = Inr s)"
    if inv: "invariant s" and run: "isRunning s" and live: "\<not> isGameOver s"
  proof -
    let ?p = "loopEffect (handlePause s)"
    from inv run live have armed: "loopRef s = Some (speed s)" by (rule invariant_armed)
    from run have pause: "fire ClickPause u s = Inr ?p"
      by (simp add: fire_def available_def callsReset_def handler_def)
    have wait: "elapse us ?p = Inr ?p"
      by (rule elapse_idle) (simp add: pause_fields)
    have p: "\<not> isRunning ?p" "\<not> isGameOver ?p" "score ?p = score s"
      using live by (simp_all add: pause_fields)
    from armed run live have restored: "loopEffect (?p\<lparr>isRunning := True\<rparr>) = s"
      by (rule resume_after_pause)
    from resume_ways [OF p(1,2), of u] resume_handler [OF p(2)] p(3) restored armed pause wait
    show ?thesis by simp
  qed
  from idle paused show ?thesis
    by (simp add: reachable_invariant pause_fields)
qed

lemma startedState_running:
  "isRunning startedState" "\<not> isGameOver startedState" "score startedState = 0"
  "speed startedState = 150"
  by (simp_all add: started_defs)

theorem pause_stops_the_simulation_witness:
  "reachable None (mount None (Abs_rnd 0))
   \<and> \<not> isRunning (mount None (Abs_rnd 0))
   \<and> elapse [Abs_rnd 0, Abs_rnd (1 / 2), Abs_rnd 0] (mount None (Abs_rnd 0))
       = Inr (mount None (Abs_rnd 0))
   \<and> reachable None startedState \<and> isRunning startedState \<and> \<not> isGameOver startedState
   \<and> loopRef startedState = Some 150
   \<and> fire ClickPause (Abs_rnd 0) startedState = Inr (loopEffect (handlePause startedState))
   \<and> elapse [Abs_rnd 0, Abs_rnd (1 / 2)] (loopEffect (handlePause startedState))
       = Inr (loopEffect (handlePause startedState))
   \<and> fire (KeyDown '' '') (Abs_rnd 0) (loopEffect (handlePause startedState)) = Inr startedState
   \<and> fire ClickStart (Abs_rnd 0) (loopEffect (handlePause startedState)) = Inr startedState"
proof -
  have idle: "\<not> isRunning (mount None (Abs_rnd 0))"
    by (simp add: mount_None)
  note mounted = reachable.mounted [of None "Abs_rnd 0"]
  from pause_stops_the_simulation
      [where stored = None and s = "mount None (Abs_rnd 0)"
        and us = "[Abs_rnd 0, Abs_rnd (1 / 2), Abs_rnd 0]" and u = "Abs_rnd 0"]
    pause_stops_the_simulation
      [where stored = None and s = startedState and us = "[Abs_rnd 0, Abs_rnd (1 / 2)]"
        and u = "Abs_rnd 0"]
    idle mounted startedState_reachable startedState_running
  show ?thesis by simp
qed

lemma handler_game_over:
  assumes "isGameOver s" and "\<not> callsReset e s"
  shows "isGameOver (handler e u s) \<and> snake (handler e u s) = snake s
     \<and> food (handler e u s) = food s \<and> score (handler e u s) = score s
     \<and> speed (handler e u s) = speed s"
proof (cases e)
  case (KeyDown k)
  with assms show ?thesis
    by (auto simp: handler_def callsReset_def handleKeyDown_def Let_def split: option.splits)
next
  case (ClickPad b)
  with assms show ?thesis by (simp add: handler_def onClickPad_def Let_def)
next
  case ClickStart
  with assms show ?thesis by (simp add: callsReset_def)
next
  case ClickRestart
  with assms show ?thesis by (simp add: callsReset_def)
qed (use assms in \<open>simp_all add: handler_def handlePause_def handleResume_def\<close>)

lemma fire_game_over:
  assumes "invariant s" and "isGameOver s" and "\<not> callsReset e s"
  shows "\<exists>s'. fire e u s = Inr s' \<and> invariant s' \<and> isGameOver s' \<and> snake s' = snake s
           \<and> food s' = food s \<and> score s' = score s \<and> speed s' = speed s \<and> loopRef s' = None"
proof -
  from assms(1,2) have idle: "loopRef s = None" by (simp add: invariant_idle)
  obtain s' where fired: "fire e u s = Inr s'"
    using fire_total [OF assms(1)] by blast
  then have inv: "invariant s'" using assms(1) invariant_fire by blast
  have fields: "isGameOver s' \<and> snake s' = snake s \<and> food s' = food s \<and> score s' = score s
      \<and> speed s' = speed s"
  proof (cases "e = Elapse")
    case True
    with fired idle assms(2) show ?thesis by (simp add: fire_Elapse_idle)
  next
    case False
    from fired [unfolded fire_handler [OF False]] assms(2,3)
      handler_game_over [OF assms(2,3), of u]
    show ?thesis by (auto split: if_splits)
  qed
  with inv have "loopRef s' = None" by (simp add: invariant_idle)
  with fired inv fields show ?thesis by simp
qed

lemma pad_sets_running:
  assumes "\<not> opposite (directionRef s) (padDirection b)"
  shows "\<exists>s'. fire (ClickPad b) u s = Inr s' \<and> isRunning s'"
  using assms
  by (auto simp: fire_def available_def callsReset_def handler_def onClickPad_def opposite_def
      Let_def)

lemma key_keeps_running_flag:
  assumes "isGameOver s" and "normalizeKey k \<noteq> '' ''"
  shows "isRunning (handleKeyDown k u s) = isRunning s"
  using assms by (simp add: handleKeyDown_def Let_def split: option.splits)

lemma reset_event:
  assumes "callsReset e s" and "available e s"
  shows "fire e u s = Inr (freshRun u (highScore s))"
proof -
  from assms(1) have "e \<noteq> Elapse" by (auto simp: callsReset_def)
  with assms show ?thesis
    by (simp add: fire_handler handler_reset reset_then_effects)
qed

text \<open>
  C10. In a state with the game-over flag set no timer is armed, so no tick fires however
  much time passes. Every event that is not a restart (the Restart button, the space key,
  \<open>handleStart\<close>) leaves the flag set and snake, food, score and speed as they were, and
  leaves no timer armed; this holds although an on-screen direction button, unlike a
  direction key, sets the running flag during game over. A restart, and nothing else,
  leads out of game over, to the fresh running configuration.
\<close>

theorem game_over_is_final:
  "(reachable stored s \<longrightarrow> invariant s)
   \<and> (invariant s \<and> isGameOver s \<longrightarrow>
        loopRef s = None
        \<and> elapse us s = Inr s
        \<and> (\<not> callsReset e s \<longrightarrow>
             (\<exists>s'. fire e u s = Inr s' \<and> invariant s' \<and> isGameOver s' \<and> snake s' = snake s
                   \<and> food s' = food s \<and> score s' = score s \<and> speed s' = speed s
                   \<and> loopRef s' = None))
        \<and> (\<not> opposite (directionRef s) (padDirection b) \<longrightarrow>
             (\<exists>s'. fire (ClickPad b) u s = Inr s' \<and> isRunning s' \<and> isGameOver s'
                   \<and> loopRef s' = None))
        \<and> (normalizeKey k \<noteq> '' '' \<longrightarrow> isRunning (handleKeyDown k u s) = isRunning s)
        \<and> (callsReset e s \<and> available e s \<longrightarrow> fire e u s = Inr (freshRun u (highScore s)))
        \<and> (callsReset e s \<and> \<not> available e s \<longrightarrow> fire e u s = Inr s))"
proof -
  have unavailable: "fire e u s = Inr s" if "callsReset e s" and "\<not> available e s"
  proof -
    from that(1) have "e \<noteq> Elapse" by (auto simp: callsReset_def)
    with that(2) show ?thesis by (simp add: fire_handler)
  qed
  have over: "loopRef s = None \<and> elapse us s = Inr s" if "invariant s" and "isGameOver s"
    using that by (simp add: invariant_idle elapse_idle)
  have pad: "\<exists>s'. fire (ClickPad b) u s = Inr s' \<and> isRunning s' \<and> isGameOver s'
        \<and> loopRef s' = None"
    if inv: "invariant s" and flag: "isGameOver s"
      and turn: "\<not> opposite (directionRef s) (padDirection b)"
  proof -
    have "\<not> callsReset (ClickPad b) s" by (simp add: callsReset_def)
    with inv flag obtain s' where "fire (ClickPad b) u s = Inr s'" "isGameOver s'"
        "loopRef s' = None"
      using fire_game_over [of s "ClickPad b" u] by blast
    with pad_sets_running [OF turn, of u] show ?thesis by auto
  qed
  from over pad unavailable show ?thesis
    using fire_game_over [of s e u] key_keeps_running_flag [of s k u] reset_event [of e s u]
    by (simp add: reachable_invariant)
qed

theorem game_over_is_final_witness:
  "invariant gameOverState \<and> isGameOver gameOverState \<and> \<not> isRunning gameOverState
   \<and> loopRef gameOverState = None
   \<and> elapse [Abs_rnd 0, Abs_rnd (1 / 2)] gameOverState = Inr gameOverState
   \<and> \<not> callsReset (ClickPad PadUp) gameOverState
   \<and> \<not> opposite (directionRef gameOverState) (padDirection PadUp)
   \<and> (\<exists>s'. fire (ClickPad PadUp) (Abs_rnd 0) gameOverState = Inr s' \<and> isRunning s'
          \<and> isGameOver s' \<and> loopRef s' = None \<and> snake s' = snake gameOverState
          \<and> food s' = food gameOverState \<and> score s' = score gameOverState
          \<and> speed s' = speed gameOverState)
   \<and> isRunning (handleKeyDown ''ArrowUp'' (Abs_rnd 0) gameOverState) = isRunning gameOverState
   \<and> callsReset (KeyDown '' '') gameOverState
   \<and> fire (KeyDown '' '') (Abs_rnd 0) gameOverState = Inr (freshRun (Abs_rnd 0) (Finite 40))"
proof -
  have state: "gameOverState = wallState\<lparr>isRunning := False, isGameOver := True, loopRef := None\<rparr>"
    by (simp add: gameOverState_def handleGameOver_def loopEffect_def)
  have inv: "invariant gameOverState"
    by (simp add: state invariant_def coreInvariant_def timerInvariant_def wallState_def
        isDirection_def)
  have flags: "isGameOver gameOverState" "\<not> isRunning gameOverState"
      "highScore gameOverState = Finite 40"
    by (simp_all add: state wallState_def)
  have pad: "\<not> callsReset (ClickPad PadUp) gameOverState"
      "\<not> opposite (directionRef gameOverState) (padDirection PadUp)"
    by (simp_all add: callsReset_def state wallState_def padDirection_def opposite_def)
  have key: "normalizeKey ''ArrowUp'' \<noteq> '' ''"
    by (simp add: normalizeKey_def)
  have space: "callsReset (KeyDown '' '') gameOverState" "available (KeyDown '' '') gameOverState"
    using flags(1) by (simp_all add: callsReset_def available_def normalizeKey_def toLowerCase_def)
  from game_over_is_final
      [where s = gameOverState and stored = None and us = "[Abs_rnd 0, Abs_rnd (1 / 2)]"
        and e = "ClickPad PadUp" and u = "Abs_rnd 0" and b = PadUp and k = "''ArrowUp''"]
    inv flags pad key
  have first: "loopRef gameOverState = None
      \<and> elapse [Abs_rnd 0, Abs_rnd (1 / 2)] gameOverState = Inr gameOverState
      \<and> (\<exists>s'. fire (ClickPad PadUp) (Abs_rnd 0) gameOverState = Inr s' \<and> isRunning s'
            \<and> isGameOver s' \<and> loopRef s' = None \<and> snake s' = snake gameOverState
            \<and> food s' = food gameOverState \<and> score s' = score gameOverState
            \<and> speed s' = speed gameOverState)
      \<and> isRunning (handleKeyDown ''ArrowUp'' (Abs_rnd 0) gameOverState) = isRunning gameOverState"
    by auto
  from game_over_is_final
      [where s = gameOverState and stored = None and us = "[]"
        and e = "KeyDown '' ''" and u = "Abs_rnd 0" and b = PadUp and k = "''ArrowUp''"]
    inv flags space
  have "fire (KeyDown '' '') (Abs_rnd 0) gameOverState = Inr (freshRun (Abs_rnd 0) (Finite 40))"
    by simp
  with first inv flags pad space show ?thesis by simp
qed

end
